theory Spec2Isabelle
  imports Main
begin

section \<open>Data model\<close>

text \<open>
  The agent activity stream of the onboarding UI: a server-sent event stream is read chunk
  by chunk, cut into lines, turned into (event, data) frames and folded into a timeline of
  \<open>AgentStep\<close>s. Two call sites carry their own copy of the logic and are modelled
  one beside the other: \<open>DocViewer\<close> (\<open>generateDoc\<close>, \<open>handleStreamEvent\<close>) and
  \<open>ChatInterface\<close> (\<open>handleSubmit\<close>).

  Values of TypeScript type \<open>unknown\<close> are JSON values; an absent (\<open>undefined\<close>)
  property is \<open>None\<close>.
\<close>

datatype json =
    JNull
  | JBool bool
  | JNum int
  | JStr string
  | JArr "json list"
  | JObj "(string \<times> json) list"

text \<open>\<open>AgentStep.type\<close> and \<open>AgentStep.status\<close> (agent-activity.tsx).\<close>

datatype step_type = Thinking | ToolCall | ToolResult | TextStep | StepStart | StepFinish

datatype status = Pending | Running | Completed | Error

text \<open>
  \<open>interface AgentStep\<close>. The fields \<open>id\<close>, \<open>type\<close>, \<open>output\<close> and \<open>text\<close> carry the suffix
  \<open>_step\<close> because the plain names are taken in Isabelle.
\<close>

record AgentStep =
  id_step :: string
  type_step :: step_type
  toolName :: "string option"
  toolCallId :: "string option"
  input :: "json option"
  output_step :: "json option"
  fullOutput :: "json option"
  text_step :: "string option"
  timestamp :: nat
  status :: status

text \<open>
  The parsed payload of a frame (\<open>data\<close>), taken to be an object: one field for every
  property the two call sites read, at the type the code casts it to; \<open>p_id\<close> is the
  \<open>id\<close> property of the wire contract, which no call site reads.
\<close>

record payload =
  p_message :: "string option"
  p_tool :: "string option"
  p_args :: "json option"
  p_id :: "string option"
  p_summary :: "json option"
  p_output :: "json option"
  p_text :: "string option"
  p_document :: "json option"

section \<open>String helpers of the host language\<close>

text \<open>
  \<open>s.split('\n')\<close>: never empty; a trailing newline gives a last empty piece. The split
  of the rest is never empty either, so the second case of the \<open>case\<close> is never taken.
\<close>

fun split_nl :: "string \<Rightarrow> string list" where
  "split_nl [] = [[]]"
| "split_nl (c # cs) =
     (if c = CHR ''\<newline>'' then [] # split_nl cs
      else (case split_nl cs of l # ls \<Rightarrow> (c # l) # ls | [] \<Rightarrow> [[c]]))"

definition startsWith :: "string \<Rightarrow> string \<Rightarrow> bool" where
  "startsWith s p = (take (length p) s = p)"

definition slice :: "string \<Rightarrow> nat \<Rightarrow> string" where
  "slice s n = drop n s"

text \<open>\<open>a + b\<close> on strings where \<open>b\<close> may be \<open>undefined\<close>.\<close>

definition js_concat :: "string \<Rightarrow> string option \<Rightarrow> string" where
  "js_concat a b = a @ (case b of None \<Rightarrow> ''undefined'' | Some s \<Rightarrow> s)"

text \<open>\<open>x || ''\<close> on an optional string.\<close>

definition or_empty :: "string option \<Rightarrow> string" where
  "or_empty x = (case x of None \<Rightarrow> [] | Some s \<Rightarrow> s)"

section \<open>DocViewer: the step reducer\<close>

text \<open>
  What one call of \<open>handleStreamEvent\<close> draws from the environment:
  \<open>crypto.randomUUID()\<close> for the step id, a second one for \<open>toolCallId\<close>, and
  \<open>Date.now()\<close>.
\<close>

record env =
  uuid_id :: string
  uuid_call :: string
  now :: nat

text \<open>The React state of \<open>DocViewer\<close> that the stream touches.\<close>

record doc_state =
  doc :: "json option"
  isLoading :: bool
  error_msg :: "string option"
  agentSteps :: "AgentStep list"

text \<open>\<open>addAgentStep\<close>: append the step with a fresh id and the current time.\<close>

definition addAgentStep :: "env \<Rightarrow> AgentStep \<Rightarrow> AgentStep list \<Rightarrow> AgentStep list" where
  "addAgentStep e step prev = prev @ [step\<lparr>id_step := uuid_id e, timestamp := now e\<rparr>]"

text \<open>An object literal with no property set; the literals of the code fill it in.\<close>

definition no_step :: AgentStep where
  "no_step = \<lparr>id_step = [], type_step = Thinking, toolName = None, toolCallId = None,
     input = None, output_step = None, fullOutput = None, text_step = None, timestamp = 0,
     status = Pending\<rparr>"

definition running_tool_call :: "AgentStep \<Rightarrow> bool" where
  "running_tool_call s = (type_step s = ToolCall \<and> status s = Running)"

definition is_thinking :: "AgentStep \<Rightarrow> bool" where
  "is_thinking s = (type_step s = Thinking)"

text \<open>The updater of the \<open>tool_result\<close> case.\<close>

definition resolve_step :: "payload \<Rightarrow> AgentStep \<Rightarrow> AgentStep" where
  "resolve_step d s = s\<lparr>status := Completed, output_step := p_summary d, fullOutput := p_output d\<rparr>"

definition doc_tool_result :: "payload \<Rightarrow> AgentStep list \<Rightarrow> AgentStep list" where
  "doc_tool_result d prev =
     (case find running_tool_call (rev prev) of
        Some lastToolCall \<Rightarrow>
          map (\<lambda>s. if id_step s = id_step lastToolCall then resolve_step d s else s) prev
      | None \<Rightarrow> prev)"

text \<open>The updater of the \<open>thinking\<close> case.\<close>

definition doc_thinking :: "payload \<Rightarrow> AgentStep list \<Rightarrow> AgentStep list" where
  "doc_thinking d prev =
     (case find is_thinking (rev prev) of
        Some lastThinking \<Rightarrow>
          map (\<lambda>s. if id_step s = id_step lastThinking then s\<lparr>text_step := p_text d\<rparr> else s) prev
      | None \<Rightarrow> prev)"

text \<open>\<open>handleStreamEvent(event, data)\<close>; a label without a case leaves the state alone.\<close>

definition handleStreamEvent :: "env \<Rightarrow> string \<Rightarrow> payload \<Rightarrow> doc_state \<Rightarrow> doc_state" where
  "handleStreamEvent e event d st =
     (if event = ''status'' then
        st\<lparr>agentSteps := addAgentStep e
          (no_step\<lparr>type_step := Thinking, text_step := p_message d, status := Running\<rparr>)
          (agentSteps st)\<rparr>
      else if event = ''tool_call'' then
        st\<lparr>agentSteps := addAgentStep e
          (no_step\<lparr>type_step := ToolCall, toolName := p_tool d, input := p_args d,
             status := Running, toolCallId := Some (uuid_call e)\<rparr>)
          (agentSteps st)\<rparr>
      else if event = ''tool_result'' then
        st\<lparr>agentSteps := doc_tool_result d (agentSteps st)\<rparr>
      else if event = ''thinking'' then
        st\<lparr>agentSteps := doc_thinking d (agentSteps st)\<rparr>
      else if event = ''complete'' then
        st\<lparr>doc := p_document d,
           agentSteps := map (\<lambda>s. s\<lparr>status := Completed\<rparr>) (agentSteps st)\<rparr>
      else if event = ''error'' then
        st\<lparr>error_msg := p_message d,
           agentSteps := map (\<lambda>s. s\<lparr>status := Error\<rparr>) (agentSteps st)\<rparr>
      else st)"

section \<open>DocViewer: the read loop of \<open>generateDoc\<close>\<close>

text \<open>
  \<open>JSON.parse\<close> is a parameter \<open>parse\<close>; \<open>None\<close> stands for the SyntaxError that the
  \<open>try\<close> around it swallows. The call of the handler is a parameter \<open>h\<close> as well, so that
  the same loop both drives the reducer and, with \<open>emit\<close>, lists the frames it hands over.

  The body of \<open>for (const line of lines)\<close>, with the local \<open>eventType\<close>.
\<close>

fun doc_lines ::
  "(string \<Rightarrow> payload \<Rightarrow> 's \<Rightarrow> 's) \<Rightarrow> (string \<Rightarrow> payload option) \<Rightarrow> string list \<Rightarrow> string \<Rightarrow> 's \<Rightarrow> 's"
where
  "doc_lines h parse [] eventType st = st"
| "doc_lines h parse (line # ls) eventType st =
     (if startsWith line ''event: '' then doc_lines h parse ls (slice line 7) st
      else if startsWith line ''data: '' \<and> eventType \<noteq> [] then
        doc_lines h parse ls []
          (case parse (slice line 6) of Some d \<Rightarrow> h eventType d st | None \<Rightarrow> st)
      else doc_lines h parse ls eventType st)"

text \<open>
  One turn of \<open>while (true)\<close> after a successful read: the chunk joins the buffer, the
  last piece of the split goes back to the buffer, and \<open>eventType\<close> starts empty.
\<close>

definition doc_chunk ::
  "(string \<Rightarrow> payload \<Rightarrow> 's \<Rightarrow> 's) \<Rightarrow> (string \<Rightarrow> payload option) \<Rightarrow> string \<Rightarrow> string \<times> 's \<Rightarrow> string \<times> 's"
where
  "doc_chunk h parse chunk bs =
     (let lines = split_nl (fst bs @ chunk)
      in (last lines, doc_lines h parse (butlast lines) [] (snd bs)))"

fun doc_read_loop ::
  "(string \<Rightarrow> payload \<Rightarrow> 's \<Rightarrow> 's) \<Rightarrow> (string \<Rightarrow> payload option) \<Rightarrow> string list \<Rightarrow> string \<times> 's \<Rightarrow> string \<times> 's"
where
  "doc_read_loop h parse [] bs = bs"
| "doc_read_loop h parse (chunk # cs) bs = doc_read_loop h parse cs (doc_chunk h parse chunk bs)"

text \<open>The handler that only records the frame it is given.\<close>

definition emit :: "string \<Rightarrow> payload \<Rightarrow> (string \<times> payload) list \<Rightarrow> (string \<times> payload) list" where
  "emit event d fs = fs @ [(event, d)]"

definition doc_decode :: "(string \<Rightarrow> payload option) \<Rightarrow> string list \<Rightarrow> (string \<times> payload) list" where
  "doc_decode parse chunks = snd (doc_read_loop emit parse chunks ([], []))"

text \<open>
  How the reads end: \<open>done\<close>, or a rejected \<open>reader.read()\<close> with its message.
\<close>

datatype ending = Done | Failed string

text \<open>The handler as the loop calls it: the \<open>n\<close>-th call draws \<open>envs n\<close>.\<close>

definition doc_handler ::
  "(nat \<Rightarrow> env) \<Rightarrow> string \<Rightarrow> payload \<Rightarrow> nat \<times> doc_state \<Rightarrow> nat \<times> doc_state"
where
  "doc_handler envs event d ns = (Suc (fst ns), handleStreamEvent (envs (fst ns)) event d (snd ns))"

text \<open>
  \<open>generateDoc\<close> on a streaming response: reset, read loop, the \<open>catch\<close> block when a
  read fails, \<open>finally\<close>.
\<close>

definition generateDoc ::
  "(nat \<Rightarrow> env) \<Rightarrow> (string \<Rightarrow> payload option) \<Rightarrow> string list \<Rightarrow> ending \<Rightarrow> doc_state \<Rightarrow> doc_state"
where
  "generateDoc envs parse chunks ending st =
     (let st1 = st\<lparr>isLoading := True, error_msg := None, agentSteps := []\<rparr>;
          st2 = snd (snd (doc_read_loop (doc_handler envs) parse chunks ([], (0, st1))));
          st3 = (case ending of
                   Done \<Rightarrow> st2
                 | Failed msg \<Rightarrow>
                     st2\<lparr>error_msg := Some msg,
                         agentSteps := map (\<lambda>step. step\<lparr>status := Error\<rparr>) (agentSteps st2)\<rparr>)
      in st3\<lparr>isLoading := False\<rparr>)"

section \<open>ChatInterface: the step reducer inside \<open>handleSubmit\<close>\<close>

text \<open>
  What one event draws from the environment: \<open>Date.now()\<close> for the id, \<open>Date.now()\<close>
  for the timestamp, and \<open>Math.random().toString(36)\<close>.
\<close>

record chat_env =
  now_id :: nat
  now_ts :: nat
  random36 :: string

text \<open>A number inside a template literal.\<close>

fun decimal :: "nat \<Rightarrow> string" where
  "decimal n = (if n < 10 then [''0123456789'' ! n] else decimal (n div 10) @ [''0123456789'' ! (n mod 10)])"

declare decimal.simps [simp del]

text \<open>
  The local \<open>steps\<close> and \<open>assistantContent\<close> of \<open>handleSubmit\<close> and the React state
  \<open>currentSteps\<close>. The message list and the session id are left out: no step depends on
  them.
\<close>

record chat_state =
  steps :: "AgentStep list"
  assistantContent :: string
  currentSteps :: "AgentStep list"

text \<open>\<open>Array.prototype.findIndex\<close>, \<open>None\<close> for -1.\<close>

fun findIndex :: "('a \<Rightarrow> bool) \<Rightarrow> 'a list \<Rightarrow> nat option" where
  "findIndex P [] = None"
| "findIndex P (x # xs) = (if P x then Some 0 else map_option Suc (findIndex P xs))"

definition chat_thinking :: "chat_env \<Rightarrow> payload \<Rightarrow> AgentStep list \<Rightarrow> AgentStep list" where
  "chat_thinking e d ss =
     (let thinkingStep = no_step\<lparr>id_step := ''thinking-'' @ decimal (now_id e),
            type_step := Thinking, text_step := p_text d, timestamp := now_ts e,
            status := Running\<rparr>
      in case findIndex is_thinking ss of
           Some thinkingIdx \<Rightarrow>
             ss[thinkingIdx := (ss ! thinkingIdx)
                  \<lparr>text_step := Some (js_concat (or_empty (text_step (ss ! thinkingIdx))) (p_text d))\<rparr>]
         | None \<Rightarrow> ss @ [thinkingStep])"

definition chat_tool_call :: "chat_env \<Rightarrow> payload \<Rightarrow> AgentStep list \<Rightarrow> AgentStep list" where
  "chat_tool_call e d ss =
     ss @ [no_step\<lparr>id_step := ''tool-'' @ decimal (now_id e) @ ''-'' @ take 5 (drop 2 (random36 e)),
             type_step := ToolCall, toolName := p_tool d, input := p_args d,
             timestamp := now_ts e, status := Running\<rparr>]"

text \<open>
  \<open>for (let i = steps.length - 1; i >= 0; i--)\<close> with its \<open>break\<close>; the first argument
  is \<open>i + 1\<close>.
\<close>

fun chat_tool_result :: "nat \<Rightarrow> payload \<Rightarrow> AgentStep list \<Rightarrow> AgentStep list" where
  "chat_tool_result 0 d ss = ss"
| "chat_tool_result (Suc i) d ss =
     (if type_step (ss ! i) = ToolCall \<and> toolName (ss ! i) = p_tool d \<and> status (ss ! i) = Running
      then ss[i := (ss ! i)\<lparr>output_step := p_summary d, fullOutput := p_output d, status := Completed\<rparr>]
      else chat_tool_result i d ss)"

text \<open>The \<open>switch (currentEvent)\<close>; \<open>session\<close> and \<open>error\<close> touch no step.\<close>

definition handleSubmit_event :: "chat_env \<Rightarrow> string \<Rightarrow> payload \<Rightarrow> chat_state \<Rightarrow> chat_state" where
  "handleSubmit_event e event d st =
     (if event = ''session'' then st
      else if event = ''thinking'' then
        (let ss = chat_thinking e d (steps st) in st\<lparr>steps := ss, currentSteps := ss\<rparr>)
      else if event = ''tool_call'' then
        (let ss = chat_tool_call e d (steps st) in st\<lparr>steps := ss, currentSteps := ss\<rparr>)
      else if event = ''tool_result'' then
        (let ss = chat_tool_result (length (steps st)) d (steps st)
         in st\<lparr>steps := ss, currentSteps := ss\<rparr>)
      else if event = ''text'' then
        st\<lparr>assistantContent := js_concat (assistantContent st) (p_text d)\<rparr>
      else if event = ''complete'' then
        st\<lparr>steps := map (\<lambda>s. if status s = Running then s\<lparr>status := Completed\<rparr> else s) (steps st),
           currentSteps := []\<rparr>
      else if event = ''error'' then st
      else st)"

section \<open>ChatInterface: the read loop of \<open>handleSubmit\<close>\<close>

text \<open>
  The body of \<open>for (const line of lines)\<close> with the locals \<open>currentEvent\<close>,
  \<open>currentData\<close> and the buffer that the loop refills.
\<close>

fun chat_lines ::
  "(string \<Rightarrow> payload \<Rightarrow> 's \<Rightarrow> 's) \<Rightarrow> (string \<Rightarrow> payload option) \<Rightarrow> string list \<Rightarrow>
     string \<Rightarrow> string \<Rightarrow> string \<Rightarrow> 's \<Rightarrow> string \<times> 's"
where
  "chat_lines h parse [] currentEvent currentData buffer st = (buffer, st)"
| "chat_lines h parse (line # ls) currentEvent currentData buffer st =
     (if startsWith line ''event: '' then
        chat_lines h parse ls (slice line 7) currentData buffer st
      else if startsWith line ''data: '' then
        chat_lines h parse ls currentEvent (slice line 6) buffer st
      else if line = [] \<and> currentEvent \<noteq> [] \<and> currentData \<noteq> [] then
        chat_lines h parse ls [] [] buffer
          (case parse currentData of Some d \<Rightarrow> h currentEvent d st | None \<Rightarrow> st)
      else if line \<noteq> [] then
        chat_lines h parse ls currentEvent currentData (buffer @ line @ ''\<newline>'') st
      else chat_lines h parse ls currentEvent currentData buffer st)"

definition chat_chunk ::
  "(string \<Rightarrow> payload \<Rightarrow> 's \<Rightarrow> 's) \<Rightarrow> (string \<Rightarrow> payload option) \<Rightarrow> string \<Rightarrow> string \<times> 's \<Rightarrow> string \<times> 's"
where
  "chat_chunk h parse chunk bs = chat_lines h parse (split_nl (fst bs @ chunk)) [] [] [] (snd bs)"

fun chat_read_loop ::
  "(string \<Rightarrow> payload \<Rightarrow> 's \<Rightarrow> 's) \<Rightarrow> (string \<Rightarrow> payload option) \<Rightarrow> string list \<Rightarrow> string \<times> 's \<Rightarrow> string \<times> 's"
where
  "chat_read_loop h parse [] bs = bs"
| "chat_read_loop h parse (chunk # cs) bs = chat_read_loop h parse cs (chat_chunk h parse chunk bs)"

definition chat_decode :: "(string \<Rightarrow> payload option) \<Rightarrow> string list \<Rightarrow> (string \<times> payload) list" where
  "chat_decode parse chunks = snd (chat_read_loop emit parse chunks ([], []))"

definition chat_handler ::
  "(nat \<Rightarrow> chat_env) \<Rightarrow> string \<Rightarrow> payload \<Rightarrow> nat \<times> chat_state \<Rightarrow> nat \<times> chat_state"
where
  "chat_handler envs event d ns = (Suc (fst ns), handleSubmit_event (envs (fst ns)) event d (snd ns))"

text \<open>
  \<open>handleSubmit\<close> from the reset of its locals to \<open>finally\<close>. The \<open>catch\<close> block only
  rewrites the message list, so both endings leave \<open>steps\<close> alone and clear
  \<open>currentSteps\<close>.
\<close>

definition handleSubmit ::
  "(nat \<Rightarrow> chat_env) \<Rightarrow> (string \<Rightarrow> payload option) \<Rightarrow> string list \<Rightarrow> ending \<Rightarrow> chat_state \<Rightarrow> chat_state"
where
  "handleSubmit envs parse chunks ending st =
     (let st1 = st\<lparr>steps := [], assistantContent := [], currentSteps := []\<rparr>;
          st2 = snd (snd (chat_read_loop (chat_handler envs) parse chunks ([], (0, st1))))
      in st2\<lparr>currentSteps := []\<rparr>)"

section \<open>Runs of frames\<close>

text \<open>The reducers folded over a list of frames, each with what it draws.\<close>

fun doc_run :: "(env \<times> string \<times> payload) list \<Rightarrow> doc_state \<Rightarrow> doc_state" where
  "doc_run [] st = st"
| "doc_run ((e, event, d) # fs) st = doc_run fs (handleStreamEvent e event d st)"

fun chat_run :: "(chat_env \<times> string \<times> payload) list \<Rightarrow> chat_state \<Rightarrow> chat_state" where
  "chat_run [] st = st"
| "chat_run ((e, event, d) # fs) st = chat_run fs (handleSubmit_event e event d st)"

text \<open>The state a session starts from.\<close>

definition doc_init :: doc_state where
  "doc_init = \<lparr>doc = None, isLoading = True, error_msg = None, agentSteps = []\<rparr>"

definition chat_init :: chat_state where
  "chat_init = \<lparr>steps = [], assistantContent = [], currentSteps = []\<rparr>"

text \<open>A payload with no property.\<close>

definition no_data :: payload where
  "no_data = \<lparr>p_message = None, p_tool = None, p_args = None, p_id = None, p_summary = None,
     p_output = None, p_text = None, p_document = None\<rparr>"

section \<open>Auxiliary notions and sample inputs\<close>

text \<open>A status that \<open>ChatInterface\<close> can give a step.\<close>

definition settled :: "status \<Rightarrow> bool" where
  "settled x = (x = Running \<or> x = Completed)"

text \<open>Three environments with different ids.\<close>

definition env0 :: env where
  "env0 = \<lparr>uuid_id = ''u0'', uuid_call = ''c0'', now = 0\<rparr>"

definition env1 :: env where
  "env1 = \<lparr>uuid_id = ''u1'', uuid_call = ''c1'', now = 1\<rparr>"

definition env2 :: env where
  "env2 = \<lparr>uuid_id = ''u2'', uuid_call = ''c2'', now = 2\<rparr>"

text \<open>An environment that answers every call alike.\<close>

definition envs0 :: "nat \<Rightarrow> env" where
  "envs0 n = env0"

definition chat_env0 :: chat_env where
  "chat_env0 = \<lparr>now_id = 7, now_ts = 7, random36 = ''0.k3x9qz''\<rparr>"

text \<open>A parser that accepts the empty object only.\<close>

definition parse0 :: "string \<Rightarrow> payload option" where
  "parse0 s = (if s = ''{}'' then Some no_data else None)"

text \<open>Two running calls of tool \<open>x\<close> and the frames that start and resolve such a call.\<close>

definition call0 :: AgentStep where
  "call0 = no_step\<lparr>id_step := ''u0'', type_step := ToolCall, toolName := Some ''x'',
     status := Running\<rparr>"

definition call1 :: AgentStep where
  "call1 = no_step\<lparr>id_step := ''u1'', type_step := ToolCall, toolName := Some ''x'',
     status := Running\<rparr>"

definition start_x :: "string \<Rightarrow> payload" where
  "start_x i = no_data\<lparr>p_tool := Some ''x'', p_id := Some i\<rparr>"

definition result_x :: "string \<Rightarrow> payload" where
  "result_x i = no_data\<lparr>p_tool := Some ''x'', p_id := Some i, p_summary := Some (JStr ''ok'')\<rparr>"





text \<open>Frames paired with the environment of the call that handles them, counted from \<open>n\<close>.\<close>

fun with_envs :: "(nat \<Rightarrow> 'e) \<Rightarrow> nat \<Rightarrow> 'f list \<Rightarrow> ('e \<times> 'f) list" where
  "with_envs envs n [] = []"
| "with_envs envs n (f # fs) = (envs n, f) # with_envs envs (Suc n) fs"

text \<open>The state after the resets that open \<open>generateDoc\<close> and \<open>handleSubmit\<close>.\<close>

definition doc_reset :: "doc_state \<Rightarrow> doc_state" where
  "doc_reset st = st\<lparr>isLoading := True, error_msg := None, agentSteps := []\<rparr>"

definition chat_reset :: "chat_state \<Rightarrow> chat_state" where
  "chat_reset st = st\<lparr>steps := [], assistantContent := [], currentSteps := []\<rparr>"

section \<open>Properties\<close>

lemma split_nl_nonempty: "split_nl s \<noteq> []"
  by (cases s) (auto split: list.splits)

lemma hse_status [simp]:
  "agentSteps (handleStreamEvent e ''status'' d st) =
     agentSteps st @ [no_step\<lparr>type_step := Thinking, text_step := p_message d, status := Running,
        id_step := uuid_id e, timestamp := now e\<rparr>]"
  by (simp add: handleStreamEvent_def addAgentStep_def)

lemma hse_tool_call [simp]:
  "agentSteps (handleStreamEvent e ''tool_call'' d st) =
     agentSteps st @ [no_step\<lparr>type_step := ToolCall, toolName := p_tool d, input := p_args d,
        status := Running, toolCallId := Some (uuid_call e), id_step := uuid_id e,
        timestamp := now e\<rparr>]"
  by (simp add: handleStreamEvent_def addAgentStep_def)

lemma hse_tool_result [simp]:
  "agentSteps (handleStreamEvent e ''tool_result'' d st) = doc_tool_result d (agentSteps st)"
  by (simp add: handleStreamEvent_def)

lemma hse_thinking [simp]:
  "agentSteps (handleStreamEvent e ''thinking'' d st) = doc_thinking d (agentSteps st)"
  by (simp add: handleStreamEvent_def)

lemma hse_complete [simp]:
  "agentSteps (handleStreamEvent e ''complete'' d st) =
     map (\<lambda>s. s\<lparr>status := Completed\<rparr>) (agentSteps st)"
  by (simp add: handleStreamEvent_def)

lemma hse_error [simp]:
  "agentSteps (handleStreamEvent e ''error'' d st) =
     map (\<lambda>s. s\<lparr>status := Error\<rparr>) (agentSteps st)"
  by (simp add: handleStreamEvent_def)

lemma find_none_iff: "find P xs = None \<longleftrightarrow> (\<forall>x\<in>set xs. \<not> P x)"
  by (induction xs) auto

lemma doc_tool_result_none:
  assumes "\<forall>s\<in>set prev. \<not> running_tool_call s"
  shows "doc_tool_result d prev = prev"
proof -
  have "find running_tool_call (rev prev) = None"
    using assms by (simp add: find_none_iff)
  then show ?thesis by (simp add: doc_tool_result_def)
qed

lemma find_rev_last:
  "P s \<Longrightarrow> \<forall>x\<in>set post. \<not> P x \<Longrightarrow> find P (rev (pre @ s # post)) = Some s"
  by (induction post rule: rev_induct) auto

lemma doc_tool_result_some:
  assumes "distinct (map id_step (pre @ s # post))"
    and "running_tool_call s" and "\<forall>x\<in>set post. \<not> running_tool_call x"
  shows "doc_tool_result d (pre @ s # post) = pre @ resolve_step d s # post"
proof -
  have f: "find running_tool_call (rev (pre @ s # post)) = Some s"
    using assms(2,3) by (rule find_rev_last)
  have i: "id_step s \<notin> id_step ` set pre" "id_step s \<notin> id_step ` set post"
    using assms(1) by simp_all
  have a: "\<forall>x\<in>set pre. id_step x \<noteq> id_step s" using i(1) by (metis imageI)
  have b: "\<forall>x\<in>set post. id_step x \<noteq> id_step s" using i(2) by (metis imageI)
  have "map (\<lambda>x. if id_step x = id_step s then resolve_step d x else x) pre = pre"
    using a by (simp add: map_idI)
  moreover have "map (\<lambda>x. if id_step x = id_step s then resolve_step d x else x) post = post"
    using b by (simp add: map_idI)
  ultimately show ?thesis unfolding doc_tool_result_def f by simp
qed

lemma chat_tool_result_none:
  "\<forall>s\<in>set ss. status s \<noteq> Running \<Longrightarrow> n \<le> length ss \<Longrightarrow> chat_tool_result n d ss = ss"
  by (induction n) auto

lemma chat_tool_result_status:
  "\<forall>s\<in>set ss. P (status s) \<Longrightarrow> P Completed \<Longrightarrow> \<forall>s\<in>set (chat_tool_result n d ss). P (status s)"
proof (induction n)
  case 0
  then show ?case by simp
next
  case (Suc n)
  show ?case
  proof (cases "type_step (ss ! n) = ToolCall \<and> toolName (ss ! n) = p_tool d \<and> status (ss ! n) = Running")
    case True
    have "set (ss[n := (ss ! n)\<lparr>output_step := p_summary d, fullOutput := p_output d, status := Completed\<rparr>])
       \<subseteq> insert ((ss ! n)\<lparr>output_step := p_summary d, fullOutput := p_output d, status := Completed\<rparr>) (set ss)"
      by (rule set_update_subset_insert)
    with True Suc.prems show ?thesis by auto
  next
    case False
    then have eq: "chat_tool_result (Suc n) d ss = chat_tool_result n d ss"
      by auto
    show ?thesis unfolding eq using Suc.IH [OF Suc.prems] .
  qed
qed

lemma findIndex_None: "findIndex P xs = None \<longleftrightarrow> (\<forall>x\<in>set xs. \<not> P x)"
  by (induction xs) auto

lemma findIndex_Some: "findIndex P xs = Some i \<Longrightarrow> i < length xs \<and> P (xs ! i)"
proof (induction xs arbitrary: i)
  case Nil
  then show ?case by simp
next
  case (Cons x xs)
  show ?case
  proof (cases "P x")
    case True
    with Cons.prems show ?thesis by simp
  next
    case False
    with Cons.prems obtain j where j: "findIndex P xs = Some j" "i = Suc j" by auto
    from Cons.IH [OF j(1)] j(2) show ?thesis by simp
  qed
qed

lemma hsub_steps_complete [simp]:
  "steps (handleSubmit_event e ''complete'' d st) =
     map (\<lambda>s. if status s = Running then s\<lparr>status := Completed\<rparr> else s) (steps st)"
  by (simp add: handleSubmit_event_def)

lemma hsub_steps_error [simp]: "handleSubmit_event e ''error'' d st = st"
  by (simp add: handleSubmit_event_def)

lemma hsub_steps_thinking [simp]:
  "steps (handleSubmit_event e ''thinking'' d st) = chat_thinking e d (steps st)"
  by (simp add: handleSubmit_event_def Let_def)

lemma hsub_steps_tool_call [simp]:
  "steps (handleSubmit_event e ''tool_call'' d st) = chat_tool_call e d (steps st)"
  by (simp add: handleSubmit_event_def Let_def)

lemma hsub_steps_tool_result [simp]:
  "steps (handleSubmit_event e ''tool_result'' d st) =
     chat_tool_result (length (steps st)) d (steps st)"
  by (simp add: handleSubmit_event_def Let_def)

lemma hsub_steps_cases:
  "steps (handleSubmit_event e event d st) = steps st
   \<or> steps (handleSubmit_event e event d st) = chat_thinking e d (steps st)
   \<or> steps (handleSubmit_event e event d st) = chat_tool_call e d (steps st)
   \<or> steps (handleSubmit_event e event d st) = chat_tool_result (length (steps st)) d (steps st)
   \<or> steps (handleSubmit_event e event d st) =
        map (\<lambda>s. if status s = Running then s\<lparr>status := Completed\<rparr> else s) (steps st)"
  by (simp add: handleSubmit_event_def Let_def)

lemma chat_thinking_status:
  assumes "\<forall>s\<in>set ss. settled (status s)"
  shows "\<forall>s\<in>set (chat_thinking e d ss). settled (status s)"
proof (cases "findIndex is_thinking ss")
  case None
  then show ?thesis using assms by (simp add: chat_thinking_def settled_def no_step_def)
next
  case (Some i)
  then have i: "i < length ss" by (simp add: findIndex_Some)
  let ?u = "(ss ! i)\<lparr>text_step := Some (js_concat (or_empty (text_step (ss ! i))) (p_text d))\<rparr>"
  have "settled (status ?u)" using assms i by simp
  moreover have "set (ss[i := ?u]) \<subseteq> insert ?u (set ss)" by (rule set_update_subset_insert)
  ultimately have "\<forall>s\<in>set (ss[i := ?u]). settled (status s)" using assms by blast
  then show ?thesis using Some by (simp add: chat_thinking_def)
qed

lemma sweep_one:
  "settled (status s) \<Longrightarrow>
   status (if status s = Running then s\<lparr>status := Completed\<rparr> else s) = Completed"
  by (cases "status s = Running") (simp_all add: settled_def)

lemma sweep_status:
  assumes "\<forall>s\<in>set ss. settled (status s)"
  shows "\<forall>s\<in>set (map (\<lambda>s. if status s = Running then s\<lparr>status := Completed\<rparr> else s) ss).
     status s = Completed"
proof
  fix s assume "s \<in> set (map (\<lambda>s. if status s = Running then s\<lparr>status := Completed\<rparr> else s) ss)"
  then obtain x where x: "x \<in> set ss"
    "s = (if status x = Running then x\<lparr>status := Completed\<rparr> else x)"
    unfolding set_map by (rule imageE)
  from assms x(1) have "settled (status x)" by (rule bspec)
  then show "status s = Completed" unfolding x(2) by (rule sweep_one)
qed

lemma chat_event_status:
  assumes "\<forall>s\<in>set (steps st). settled (status s)"
  shows "\<forall>s\<in>set (steps (handleSubmit_event e event d st)). settled (status s)"
proof -
  have 1: "\<forall>s\<in>set (chat_thinking e d (steps st)). settled (status s)"
    using assms by (rule chat_thinking_status)
  have 2: "\<forall>s\<in>set (chat_tool_call e d (steps st)). settled (status s)"
    using assms by (simp add: chat_tool_call_def settled_def no_step_def)
  have 3: "\<forall>s\<in>set (chat_tool_result (length (steps st)) d (steps st)). settled (status s)"
    using assms by (rule chat_tool_result_status) (simp add: settled_def)
  have 4: "\<forall>s\<in>set (map (\<lambda>s. if status s = Running then s\<lparr>status := Completed\<rparr> else s) (steps st)).
      settled (status s)"
    using sweep_status [OF assms] unfolding settled_def by blast
  from hsub_steps_cases [of e event d st] show ?thesis
  proof (elim disjE)
    assume eq: "steps (handleSubmit_event e event d st) = steps st"
    show ?thesis unfolding eq by (rule assms)
  next
    assume eq: "steps (handleSubmit_event e event d st) = chat_thinking e d (steps st)"
    show ?thesis unfolding eq by (rule 1)
  next
    assume eq: "steps (handleSubmit_event e event d st) = chat_tool_call e d (steps st)"
    show ?thesis unfolding eq by (rule 2)
  next
    assume eq: "steps (handleSubmit_event e event d st) =
      chat_tool_result (length (steps st)) d (steps st)"
    show ?thesis unfolding eq by (rule 3)
  next
    assume eq: "steps (handleSubmit_event e event d st) =
      map (\<lambda>s. if status s = Running then s\<lparr>status := Completed\<rparr> else s) (steps st)"
    show ?thesis unfolding eq by (rule 4)
  qed
qed

lemma chat_run_status:
  "\<forall>s\<in>set (steps st). settled (status s) \<Longrightarrow> \<forall>s\<in>set (steps (chat_run fs st)). settled (status s)"
proof (induction fs arbitrary: st)
  case Nil
  then show ?case by simp
next
  case (Cons f fs)
  obtain e event d where f: "f = (e, event, d)" by (cases f) auto
  show ?case unfolding f chat_run.simps
    by (rule Cons.IH) (rule chat_event_status [OF Cons.prems])
qed

text \<open>
  Claim C8. After a \<open>complete\<close> frame no step is running or pending: in \<open>DocViewer\<close>
  for every timeline, since every step is set to completed; in \<open>ChatInterface\<close> for
  every timeline its reducer can hold, that is, after any run of frames from the empty
  \<open>steps\<close>, since only running steps are swept and no step is ever pending there.
\<close>

theorem complete_sweeps_open_steps:
  "(\<forall>s\<in>set (agentSteps (handleStreamEvent e ''complete'' d st)).
      status s \<noteq> Running \<and> status s \<noteq> Pending)
   \<and> (\<forall>s\<in>set (steps (handleSubmit_event e' ''complete'' d' (chat_run fs chat_init))).
      status s \<noteq> Running \<and> status s \<noteq> Pending)"
proof
  show "\<forall>s\<in>set (agentSteps (handleStreamEvent e ''complete'' d st)).
      status s \<noteq> Running \<and> status s \<noteq> Pending"
    by simp
  have "\<forall>s\<in>set (steps (chat_run fs chat_init)). settled (status s)"
    by (rule chat_run_status) (simp add: chat_init_def)
  from sweep_status [OF this]
  have "\<forall>s\<in>set (steps (handleSubmit_event e' ''complete'' d' (chat_run fs chat_init))).
      status s = Completed"
    unfolding hsub_steps_complete .
  then show "\<forall>s\<in>set (steps (handleSubmit_event e' ''complete'' d' (chat_run fs chat_init))).
      status s \<noteq> Running \<and> status s \<noteq> Pending"
    by (metis status.distinct(3,7))
qed

theorem complete_sweeps_open_steps_witness:
  "no_step\<lparr>status := Completed\<rparr>
     \<in> set (agentSteps (handleStreamEvent env0 ''complete'' no_data
          (doc_init\<lparr>agentSteps := [no_step\<lparr>status := Running\<rparr>]\<rparr>)))
   \<and> status (no_step\<lparr>status := Completed\<rparr>) \<noteq> Running
   \<and> status (no_step\<lparr>status := Completed\<rparr>) \<noteq> Pending
   \<and> chat_tool_call chat_env0 no_data [] \<noteq> []
   \<and> hd (chat_tool_call chat_env0 no_data [])\<lparr>status := Completed\<rparr>
     \<in> set (steps (handleSubmit_event chat_env0 ''complete'' no_data
          (chat_run [(chat_env0, ''tool_call'', no_data)] chat_init)))
   \<and> status (hd (chat_tool_call chat_env0 no_data [])\<lparr>status := Completed\<rparr>) \<noteq> Running
   \<and> status (hd (chat_tool_call chat_env0 no_data [])\<lparr>status := Completed\<rparr>) \<noteq> Pending"
  using complete_sweeps_open_steps [of env0 no_data
      "doc_init\<lparr>agentSteps := [no_step\<lparr>status := Running\<rparr>]\<rparr>"
      chat_env0 no_data "[(chat_env0, ''tool_call'', no_data)]"]
  by (simp add: chat_init_def chat_tool_call_def no_step_def)

lemma doc_tool_result_fresh:
  assumes "\<forall>x\<in>set pre. id_step x \<noteq> id_step s" and "\<forall>x\<in>set post. id_step x \<noteq> id_step s"
    and "running_tool_call s" and "\<forall>x\<in>set post. \<not> running_tool_call x"
  shows "doc_tool_result d (pre @ s # post) = pre @ resolve_step d s # post"
proof -
  have f: "find running_tool_call (rev (pre @ s # post)) = Some s"
    using assms(3,4) by (rule find_rev_last)
  have "map (\<lambda>x. if id_step x = id_step s then resolve_step d x else x) pre = pre"
    using assms(1) by (simp add: map_idI)
  moreover have "map (\<lambda>x. if id_step x = id_step s then resolve_step d x else x) post = post"
    using assms(2) by (simp add: map_idI)
  ultimately show ?thesis unfolding doc_tool_result_def f by simp
qed

lemma doc_tool_result_ignores_tool_and_id:
  "doc_tool_result (d\<lparr>p_tool := t, p_id := i\<rparr>) prev = doc_tool_result d prev"
proof -
  have r: "resolve_step (d\<lparr>p_tool := t, p_id := i\<rparr>) = resolve_step d"
    by (rule ext) (simp add: resolve_step_def)
  show ?thesis unfolding doc_tool_result_def r ..
qed

lemma ball_map_status:
  "\<forall>s\<in>set (map (\<lambda>s. s\<lparr>status := v\<rparr>) ss). status s = v"
proof
  fix s assume "s \<in> set (map (\<lambda>s. s\<lparr>status := v\<rparr>) ss)"
  then obtain x where "s = x\<lparr>status := v\<rparr>" unfolding set_map by (rule imageE)
  then show "status s = v" by simp
qed

text \<open>
  Claim C3, as the code has it. In \<open>DocViewer\<close> an \<open>error\<close> frame sets the status of
  every step to error, whatever it was, and changes no other field; so every pending or
  running step ends as error, and so does a step that was completed. In
  \<open>ChatInterface\<close> an \<open>error\<close> frame changes nothing.
\<close>

theorem error_frame_marks_every_step:
  "agentSteps (handleStreamEvent e ''error'' d st) = map (\<lambda>s. s\<lparr>status := Error\<rparr>) (agentSteps st)
   \<and> (\<forall>s\<in>set (agentSteps (handleStreamEvent e ''error'' d st)). status s = Error)
   \<and> handleSubmit_event e' ''error'' d' cst = cst"
  unfolding hse_error hsub_steps_error using ball_map_status [of Error "agentSteps st"] by simp

theorem error_frame_marks_every_step_witness:
  "no_step\<lparr>status := Error\<rparr>
     \<in> set (agentSteps (handleStreamEvent env0 ''error'' no_data
          (doc_init\<lparr>agentSteps := [no_step\<lparr>status := Running\<rparr>]\<rparr>)))
   \<and> status (no_step\<lparr>status := Error\<rparr>) = Error"
  using error_frame_marks_every_step [of env0 no_data
      "doc_init\<lparr>agentSteps := [no_step\<lparr>status := Running\<rparr>]\<rparr>" chat_env0 no_data chat_init]
  by simp

text \<open>
  Counterexample to C3 as the specification states it: in \<open>DocViewer\<close> a tool
  call resolved by its result is completed, and the \<open>error\<close> frame that follows
  turns it into error; in \<open>ChatInterface\<close> a running tool call is still running
  after an \<open>error\<close> frame.
\<close>

theorem error_frame_counterexample:
  "map status (agentSteps (doc_run [(env0, ''tool_call'', no_data), (env1, ''tool_result'', no_data)]
      doc_init)) = [Completed]
   \<and> map status (agentSteps (doc_run [(env0, ''tool_call'', no_data), (env1, ''tool_result'', no_data),
      (env2, ''error'', no_data)] doc_init)) = [Error]
   \<and> map status (steps (chat_run [(chat_env0, ''tool_call'', no_data)] chat_init)) = [Running]
   \<and> map status (steps (chat_run [(chat_env0, ''tool_call'', no_data), (chat_env0, ''error'', no_data)]
      chat_init)) = [Running]"
  by (simp add: doc_init_def chat_init_def doc_tool_result_def running_tool_call_def
      resolve_step_def no_step_def chat_tool_call_def)

lemma sweep_not_running:
  "\<forall>s\<in>set (map (\<lambda>s. if status s = Running then s\<lparr>status := Completed\<rparr> else s) ss).
     status s \<noteq> Running"
proof
  fix s assume "s \<in> set (map (\<lambda>s. if status s = Running then s\<lparr>status := Completed\<rparr> else s) ss)"
  then obtain x where x: "s = (if status x = Running then x\<lparr>status := Completed\<rparr> else x)"
    unfolding set_map by (rule imageE)
  show "status s \<noteq> Running" unfolding x by (cases "status x = Running") simp_all
qed

lemma doc_tool_result_all_status:
  assumes "v \<noteq> Running"
  shows "doc_tool_result d (map (\<lambda>s. s\<lparr>status := v\<rparr>) ss) = map (\<lambda>s. s\<lparr>status := v\<rparr>) ss"
proof (rule doc_tool_result_none, rule ballI)
  fix s assume "s \<in> set (map (\<lambda>s. s\<lparr>status := v\<rparr>) ss)"
  with ball_map_status [of v ss] have "status s = v" by (rule bspec)
  with assms show "\<not> running_tool_call s" by (simp add: running_tool_call_def)
qed

lemma chat_tool_result_last:
  assumes "type_step B = ToolCall" and "toolName B = p_tool d" and "status B = Running"
  shows "chat_tool_result (length (pre @ [B])) d (pre @ [B]) =
    pre @ [B\<lparr>output_step := p_summary d, fullOutput := p_output d, status := Completed\<rparr>]"
proof -
  have l: "length (pre @ [B]) = Suc (length pre)" by simp
  have n: "(pre @ [B]) ! length pre = B" by simp
  show ?thesis unfolding l chat_tool_result.simps n using assms by simp
qed

text \<open>
  Claim C1, as the code has it. After \<open>tool_call\<close> frames for A and then B, both for
  tool \<open>x\<close>, with ids \<open>i\<close> and \<open>j\<close>, a \<open>tool_result\<close> frame for tool \<open>x\<close> with A's
  id \<open>i\<close> resolves B, the call started last: B becomes completed with the frame's summary
  and output, and A stays running with no output. No call site reads the frame's id;
  \<open>DocViewer\<close> takes the last running tool call (here with B's step id new to the
  timeline), \<open>ChatInterface\<close> the last running tool call of that name.
\<close>

theorem result_resolves_latest_started_call:
  assumes "uuid_id e2 \<notin> id_step ` set (agentSteps st)" and "uuid_id e1 \<noteq> uuid_id e2"
  shows "(\<exists>A B. agentSteps (doc_run
             [(e1, ''tool_call'', a\<lparr>p_tool := Some x, p_id := Some i\<rparr>),
              (e2, ''tool_call'', b\<lparr>p_tool := Some x, p_id := Some j\<rparr>),
              (e3, ''tool_result'', r\<lparr>p_tool := Some x, p_id := Some i\<rparr>)] st) = agentSteps st @ [A, B]
           \<and> id_step A = uuid_id e1 \<and> toolName A = Some x \<and> status A = Running
           \<and> output_step A = None \<and> fullOutput A = None
           \<and> id_step B = uuid_id e2 \<and> toolName B = Some x \<and> status B = Completed
           \<and> output_step B = p_summary r \<and> fullOutput B = p_output r)
       \<and> (\<exists>A B. steps (chat_run
             [(c1, ''tool_call'', a\<lparr>p_tool := Some x, p_id := Some i\<rparr>),
              (c2, ''tool_call'', b\<lparr>p_tool := Some x, p_id := Some j\<rparr>),
              (c3, ''tool_result'', r\<lparr>p_tool := Some x, p_id := Some i\<rparr>)] cst) = steps cst @ [A, B]
           \<and> timestamp A = now_ts c1 \<and> toolName A = Some x \<and> status A = Running
           \<and> output_step A = None \<and> fullOutput A = None
           \<and> timestamp B = now_ts c2 \<and> toolName B = Some x \<and> status B = Completed
           \<and> output_step B = p_summary r \<and> fullOutput B = p_output r)"
proof
  define A where "A = no_step\<lparr>type_step := ToolCall, toolName := Some x, input := p_args a,
    status := Running, toolCallId := Some (uuid_call e1), id_step := uuid_id e1, timestamp := now e1\<rparr>"
  define B where "B = no_step\<lparr>type_step := ToolCall, toolName := Some x, input := p_args b,
    status := Running, toolCallId := Some (uuid_call e2), id_step := uuid_id e2, timestamp := now e2\<rparr>"
  define r' where "r' = r\<lparr>p_tool := Some x, p_id := Some i\<rparr>"
  have idA: "id_step A = uuid_id e1" and idB: "id_step B = uuid_id e2"
    by (simp_all add: A_def B_def)
  have pre: "\<forall>s\<in>set (agentSteps st @ [A]). id_step s \<noteq> id_step B"
  proof
    fix s assume "s \<in> set (agentSteps st @ [A])"
    then have "s \<in> set (agentSteps st) \<or> s = A" by simp blast
    then show "id_step s \<noteq> id_step B"
    proof
      assume "s \<in> set (agentSteps st)"
      then have "id_step s \<in> id_step ` set (agentSteps st)" by (rule imageI)
      with assms(1) show ?thesis unfolding idB by metis
    next
      assume "s = A"
      with assms(2) show ?thesis unfolding idB using idA by simp
    qed
  qed
  have rb: "running_tool_call B" by (simp add: running_tool_call_def B_def)
  have "doc_tool_result r' ((agentSteps st @ [A]) @ B # []) = (agentSteps st @ [A]) @ resolve_step r' B # []"
    using pre _ rb by (rule doc_tool_result_fresh) simp_all
  then have res: "doc_tool_result r' (agentSteps st @ [A, B]) = agentSteps st @ [A, resolve_step r' B]"
    by simp
  have run: "agentSteps (doc_run
             [(e1, ''tool_call'', a\<lparr>p_tool := Some x, p_id := Some i\<rparr>),
              (e2, ''tool_call'', b\<lparr>p_tool := Some x, p_id := Some j\<rparr>),
              (e3, ''tool_result'', r')] st) = doc_tool_result r' (agentSteps st @ [A, B])"
    by (simp add: A_def B_def)
  have "agentSteps (doc_run
             [(e1, ''tool_call'', a\<lparr>p_tool := Some x, p_id := Some i\<rparr>),
              (e2, ''tool_call'', b\<lparr>p_tool := Some x, p_id := Some j\<rparr>),
              (e3, ''tool_result'', r\<lparr>p_tool := Some x, p_id := Some i\<rparr>)] st) =
        agentSteps st @ [A, resolve_step r' B]
           \<and> id_step A = uuid_id e1 \<and> toolName A = Some x \<and> status A = Running
           \<and> output_step A = None \<and> fullOutput A = None
           \<and> id_step (resolve_step r' B) = uuid_id e2 \<and> toolName (resolve_step r' B) = Some x
           \<and> status (resolve_step r' B) = Completed
           \<and> output_step (resolve_step r' B) = p_summary r \<and> fullOutput (resolve_step r' B) = p_output r"
    using run res by (simp add: r'_def A_def B_def resolve_step_def no_step_def)
  then show "\<exists>A B. agentSteps (doc_run
             [(e1, ''tool_call'', a\<lparr>p_tool := Some x, p_id := Some i\<rparr>),
              (e2, ''tool_call'', b\<lparr>p_tool := Some x, p_id := Some j\<rparr>),
              (e3, ''tool_result'', r\<lparr>p_tool := Some x, p_id := Some i\<rparr>)] st) = agentSteps st @ [A, B]
           \<and> id_step A = uuid_id e1 \<and> toolName A = Some x \<and> status A = Running
           \<and> output_step A = None \<and> fullOutput A = None
           \<and> id_step B = uuid_id e2 \<and> toolName B = Some x \<and> status B = Completed
           \<and> output_step B = p_summary r \<and> fullOutput B = p_output r"
    by blast
next
  define A where "A = hd (chat_tool_call c1 (a\<lparr>p_tool := Some x, p_id := Some i\<rparr>) [])"
  define B where "B = hd (chat_tool_call c2 (b\<lparr>p_tool := Some x, p_id := Some j\<rparr>) [])"
  define r' where "r' = r\<lparr>p_tool := Some x, p_id := Some i\<rparr>"
  define B' where "B' = B\<lparr>output_step := p_summary r', fullOutput := p_output r', status := Completed\<rparr>"
  have ca: "\<And>ss. chat_tool_call c1 (a\<lparr>p_tool := Some x, p_id := Some i\<rparr>) ss = ss @ [A]"
    and cb: "\<And>ss. chat_tool_call c2 (b\<lparr>p_tool := Some x, p_id := Some j\<rparr>) ss = ss @ [B]"
    by (simp_all add: A_def B_def chat_tool_call_def)
  have "chat_tool_result (length ((steps cst @ [A]) @ [B])) r' ((steps cst @ [A]) @ [B]) =
      (steps cst @ [A]) @ [B']"
    unfolding B'_def by (rule chat_tool_result_last) (simp_all add: B_def r'_def chat_tool_call_def)
  then have "steps (chat_run
             [(c1, ''tool_call'', a\<lparr>p_tool := Some x, p_id := Some i\<rparr>),
              (c2, ''tool_call'', b\<lparr>p_tool := Some x, p_id := Some j\<rparr>),
              (c3, ''tool_result'', r\<lparr>p_tool := Some x, p_id := Some i\<rparr>)] cst) = steps cst @ [A, B']"
    by (simp add: ca cb r'_def)
  moreover have "timestamp A = now_ts c1 \<and> toolName A = Some x \<and> status A = Running
           \<and> output_step A = None \<and> fullOutput A = None
           \<and> timestamp B' = now_ts c2 \<and> toolName B' = Some x \<and> status B' = Completed
           \<and> output_step B' = p_summary r \<and> fullOutput B' = p_output r"
    by (simp add: A_def B_def B'_def r'_def chat_tool_call_def no_step_def)
  ultimately show "\<exists>A B. steps (chat_run
             [(c1, ''tool_call'', a\<lparr>p_tool := Some x, p_id := Some i\<rparr>),
              (c2, ''tool_call'', b\<lparr>p_tool := Some x, p_id := Some j\<rparr>),
              (c3, ''tool_result'', r\<lparr>p_tool := Some x, p_id := Some i\<rparr>)] cst) = steps cst @ [A, B]
           \<and> timestamp A = now_ts c1 \<and> toolName A = Some x \<and> status A = Running
           \<and> output_step A = None \<and> fullOutput A = None
           \<and> timestamp B = now_ts c2 \<and> toolName B = Some x \<and> status B = Completed
           \<and> output_step B = p_summary r \<and> fullOutput B = p_output r"
    by blast
qed

theorem result_resolves_latest_started_call_witness:
  "uuid_id env1 \<notin> id_step ` set (agentSteps doc_init) \<and> uuid_id env0 \<noteq> uuid_id env1
   \<and> map status (agentSteps (doc_run
         [(env0, ''tool_call'', no_data\<lparr>p_tool := Some ''x'', p_id := Some ''1''\<rparr>),
          (env1, ''tool_call'', no_data\<lparr>p_tool := Some ''x'', p_id := Some ''2''\<rparr>),
          (env2, ''tool_result'', no_data\<lparr>p_tool := Some ''x'', p_id := Some ''1''\<rparr>)] doc_init)) =
       [Running, Completed]"
proof -
  have h1: "uuid_id env1 \<notin> id_step ` set (agentSteps doc_init)" by (simp add: doc_init_def)
  have h2: "uuid_id env0 \<noteq> uuid_id env1" by (simp add: env0_def env1_def)
  from result_resolves_latest_started_call [OF h1 h2, where a = no_data and b = no_data
      and r = no_data and x = "''x''" and i = "''1''" and j = "''2''" and ?e3.0 = env2
      and ?c1.0 = chat_env0 and ?c2.0 = chat_env0 and ?c3.0 = chat_env0 and cst = chat_init]
  obtain A B where "agentSteps (doc_run
         [(env0, ''tool_call'', no_data\<lparr>p_tool := Some ''x'', p_id := Some ''1''\<rparr>),
          (env1, ''tool_call'', no_data\<lparr>p_tool := Some ''x'', p_id := Some ''2''\<rparr>),
          (env2, ''tool_result'', no_data\<lparr>p_tool := Some ''x'', p_id := Some ''1''\<rparr>)] doc_init) =
       agentSteps doc_init @ [A, B]" "status A = Running" "status B = Completed"
    by blast
  then have "map status (agentSteps (doc_run
         [(env0, ''tool_call'', no_data\<lparr>p_tool := Some ''x'', p_id := Some ''1''\<rparr>),
          (env1, ''tool_call'', no_data\<lparr>p_tool := Some ''x'', p_id := Some ''2''\<rparr>),
          (env2, ''tool_result'', no_data\<lparr>p_tool := Some ''x'', p_id := Some ''1''\<rparr>)] doc_init)) =
       [Running, Completed]"
    by (simp add: doc_init_def)
  with h1 h2 show ?thesis by blast
qed

text \<open>
  Counterexample to C1 as the specification states it: on the frames start(A, x, 1),
  start(B, x, 2), result(x, 1) both call sites leave A running and complete B with the
  result's summary.
\<close>

theorem result_frame_counterexample:
  "map status (agentSteps (doc_run
      [(env0, ''tool_call'', start_x ''1''), (env1, ''tool_call'', start_x ''2''),
       (env2, ''tool_result'', result_x ''1'')] doc_init)) = [Running, Completed]
   \<and> map output_step (agentSteps (doc_run
      [(env0, ''tool_call'', start_x ''1''), (env1, ''tool_call'', start_x ''2''),
       (env2, ''tool_result'', result_x ''1'')] doc_init)) = [None, Some (JStr ''ok'')]
   \<and> map status (steps (chat_run
      [(chat_env0, ''tool_call'', start_x ''1''), (chat_env0, ''tool_call'', start_x ''2''),
       (chat_env0, ''tool_result'', result_x ''1'')] chat_init)) = [Running, Completed]
   \<and> map output_step (steps (chat_run
      [(chat_env0, ''tool_call'', start_x ''1''), (chat_env0, ''tool_call'', start_x ''2''),
       (chat_env0, ''tool_result'', result_x ''1'')] chat_init)) = [None, Some (JStr ''ok'')]"
  by (simp add: doc_init_def chat_init_def doc_tool_result_def running_tool_call_def
      resolve_step_def no_step_def chat_tool_call_def start_x_def result_x_def no_data_def
      env0_def env1_def env2_def)

lemma filter_map_none:
  assumes "\<forall>s\<in>set ss. \<not> P s" and "\<And>s. P (f s) = P s"
  shows "filter P (map f ss) = []"
  using assms(1) by (induction ss) (simp_all add: assms(2))

lemma findIndex_append_new:
  "\<forall>x\<in>set xs. \<not> P x \<Longrightarrow> P y \<Longrightarrow> findIndex P (xs @ [y]) = Some (length xs)"
  by (induction xs) simp_all

lemma same_flags_same_count:
  assumes "map P xs = map P ys"
  shows "length (filter P xs) = length (filter P ys)"
proof -
  have e: "\<And>zs. length (filter P zs) = length (filter (\<lambda>b. b) (map P zs))"
    by (induct_tac zs) simp_all
  show ?thesis unfolding e assms ..
qed

lemma update_keeps_flags:
  assumes "P u = P (ss ! i)"
  shows "map P (ss[i := u]) = map P ss"
proof -
  have "map P (ss[i := u]) = (map P ss)[i := P (ss ! i)]"
    using assms by (simp add: map_update)
  also have "\<dots> = map P ss"
  proof (cases "i < length ss")
    case True
    then have "P (ss ! i) = map P ss ! i" by simp
    then show ?thesis by (simp only: list_update_id)
  next
    case False
    then show ?thesis by (simp add: list_update_beyond)
  qed
  finally show ?thesis .
qed

lemma chat_tool_result_flags:
  "map is_thinking (chat_tool_result n d ss) = map is_thinking ss"
proof (induction n)
  case 0
  show ?case by simp
next
  case (Suc n)
  show ?case
  proof (cases "type_step (ss ! n) = ToolCall \<and> toolName (ss ! n) = p_tool d \<and> status (ss ! n) = Running")
    case True
    then have eq: "chat_tool_result (Suc n) d ss =
        ss[n := (ss ! n)\<lparr>output_step := p_summary d, fullOutput := p_output d, status := Completed\<rparr>]"
      by simp
    show ?thesis unfolding eq by (rule update_keeps_flags) (simp add: is_thinking_def)
  next
    case False
    then have eq: "chat_tool_result (Suc n) d ss = chat_tool_result n d ss" by auto
    show ?thesis unfolding eq by (rule Suc.IH)
  qed
qed

lemma sweep_flags:
  "map is_thinking (map (\<lambda>s. if status s = Running then s\<lparr>status := Completed\<rparr> else s) ss) =
     map is_thinking ss"
  by (induction ss) (simp_all add: is_thinking_def)

lemma chat_thinking_count:
  assumes "length (filter is_thinking ss) \<le> 1"
  shows "length (filter is_thinking (chat_thinking e d ss)) \<le> 1"
proof (cases "findIndex is_thinking ss")
  case None
  then have "\<forall>s\<in>set ss. \<not> is_thinking s" by (simp add: findIndex_None)
  then have "filter is_thinking ss = []" by (simp add: filter_empty_conv)
  then show ?thesis using None by (simp add: chat_thinking_def)
next
  case (Some i)
  have "map is_thinking
      (ss[i := (ss ! i)\<lparr>text_step := Some (js_concat (or_empty (text_step (ss ! i))) (p_text d))\<rparr>]) =
      map is_thinking ss"
    by (rule update_keeps_flags) (simp add: is_thinking_def)
  then have "length (filter is_thinking
      (ss[i := (ss ! i)\<lparr>text_step := Some (js_concat (or_empty (text_step (ss ! i))) (p_text d))\<rparr>])) =
      length (filter is_thinking ss)"
    by (rule same_flags_same_count)
  then show ?thesis using Some assms by (simp add: chat_thinking_def)
qed

lemma chat_event_count:
  assumes "length (filter is_thinking (steps st)) \<le> 1"
  shows "length (filter is_thinking (steps (handleSubmit_event e event d st))) \<le> 1"
proof -
  have 3: "length (filter is_thinking (chat_tool_result (length (steps st)) d (steps st))) =
      length (filter is_thinking (steps st))"
    by (rule same_flags_same_count) (rule chat_tool_result_flags)
  have 4: "length (filter is_thinking
      (map (\<lambda>s. if status s = Running then s\<lparr>status := Completed\<rparr> else s) (steps st))) =
      length (filter is_thinking (steps st))"
    by (rule same_flags_same_count) (rule sweep_flags)
  from hsub_steps_cases [of e event d st] show ?thesis
  proof (elim disjE)
    assume eq: "steps (handleSubmit_event e event d st) = steps st"
    show ?thesis unfolding eq by (rule assms)
  next
    assume eq: "steps (handleSubmit_event e event d st) = chat_thinking e d (steps st)"
    show ?thesis unfolding eq using assms by (rule chat_thinking_count)
  next
    assume eq: "steps (handleSubmit_event e event d st) = chat_tool_call e d (steps st)"
    show ?thesis unfolding eq using assms by (simp add: chat_tool_call_def is_thinking_def)
  next
    assume eq: "steps (handleSubmit_event e event d st) =
      chat_tool_result (length (steps st)) d (steps st)"
    show ?thesis unfolding eq 3 by (rule assms)
  next
    assume eq: "steps (handleSubmit_event e event d st) =
      map (\<lambda>s. if status s = Running then s\<lparr>status := Completed\<rparr> else s) (steps st)"
    show ?thesis unfolding eq 4 by (rule assms)
  qed
qed

lemma chat_run_count:
  "length (filter is_thinking (steps st)) \<le> 1 \<Longrightarrow>
   length (filter is_thinking (steps (chat_run fs st))) \<le> 1"
proof (induction fs arbitrary: st)
  case Nil
  then show ?case by simp
next
  case (Cons f fs)
  obtain e event d where f: "f = (e, event, d)" by (cases f) auto
  show ?case unfolding f chat_run.simps
    by (rule Cons.IH) (rule chat_event_count [OF Cons.prems])
qed

text \<open>
  Claim C4, as the code has it. In \<open>ChatInterface\<close> every timeline reached from the
  empty \<open>steps\<close> holds at most one thinking step, hence at most one live one; no newer
  thinking step is ever created beside it. In \<open>DocViewer\<close> every \<open>status\<close> frame
  appends a new running thinking step and leaves the older steps as they are.
\<close>

theorem chat_keeps_one_thinking_step:
  "length (filter is_thinking (steps (chat_run fs chat_init))) \<le> 1
   \<and> length (filter (\<lambda>s. is_thinking s \<and> status s = Running) (steps (chat_run fs chat_init))) \<le> 1
   \<and> (\<exists>T. agentSteps (handleStreamEvent e ''status'' d st) = agentSteps st @ [T]
          \<and> is_thinking T \<and> status T = Running \<and> text_step T = p_message d)"
proof (intro conjI)
  show 1: "length (filter is_thinking (steps (chat_run fs chat_init))) \<le> 1"
    by (rule chat_run_count) (simp add: chat_init_def)
  have "filter (\<lambda>s. is_thinking s \<and> status s = Running) (steps (chat_run fs chat_init)) =
      filter (\<lambda>s. status s = Running) (filter is_thinking (steps (chat_run fs chat_init)))"
    by (simp add: conj_commute)
  then have "length (filter (\<lambda>s. is_thinking s \<and> status s = Running) (steps (chat_run fs chat_init)))
      \<le> length (filter is_thinking (steps (chat_run fs chat_init)))"
    by (simp only: length_filter_le)
  with 1 show "length (filter (\<lambda>s. is_thinking s \<and> status s = Running)
      (steps (chat_run fs chat_init))) \<le> 1"
    by simp
  show "\<exists>T. agentSteps (handleStreamEvent e ''status'' d st) = agentSteps st @ [T]
          \<and> is_thinking T \<and> status T = Running \<and> text_step T = p_message d"
    unfolding hse_status by (simp add: is_thinking_def no_step_def)
qed

text \<open>
  Counterexample to C4 as the specification states it: in \<open>DocViewer\<close> two
  \<open>status\<close> frames leave two thinking steps that are both running; the older one
  has not left the running status.
\<close>

theorem thinking_steps_counterexample:
  "map type_step (agentSteps (doc_run [(env0, ''status'', no_data), (env1, ''status'', no_data)]
      doc_init)) = [Thinking, Thinking]
   \<and> map status (agentSteps (doc_run [(env0, ''status'', no_data), (env1, ''status'', no_data)]
      doc_init)) = [Running, Running]"
  by (simp add: doc_init_def no_step_def)

lemma doc_thinking_last:
  assumes "is_thinking T"
  shows "doc_thinking d (ss @ [T]) =
    map (\<lambda>s. if id_step s = id_step T then s\<lparr>text_step := p_text d\<rparr> else s) ss
      @ [T\<lparr>text_step := p_text d\<rparr>]"
proof -
  have "find is_thinking (rev (ss @ [T])) = Some T" using assms by simp
  then show ?thesis unfolding doc_thinking_def by simp
qed

lemma chat_thinking_new:
  assumes "\<forall>s\<in>set ss. \<not> is_thinking s"
  shows "chat_thinking e d ss = ss @ [no_step\<lparr>id_step := ''thinking-'' @ decimal (now_id e),
            type_step := Thinking, text_step := p_text d, timestamp := now_ts e,
            status := Running\<rparr>]"
proof -
  have "findIndex is_thinking ss = None" using assms by (simp add: findIndex_None)
  then show ?thesis by (simp add: chat_thinking_def)
qed

lemma chat_thinking_again:
  assumes "\<forall>s\<in>set ss. \<not> is_thinking s" and "is_thinking T"
  shows "chat_thinking e d (ss @ [T]) =
    ss @ [T\<lparr>text_step := Some (js_concat (or_empty (text_step T)) (p_text d))\<rparr>]"
proof -
  have "findIndex is_thinking (ss @ [T]) = Some (length ss)"
    using assms by (rule findIndex_append_new)
  then show ?thesis by (simp add: chat_thinking_def)
qed

text \<open>
  Claim C5, as the code has it, on a timeline without a thinking step. In \<open>DocViewer\<close>
  two \<open>status\<close> frames give two thinking steps, one per frame; a \<open>status\<close> frame
  ``Exploring'' followed by a \<open>thinking\<close> frame ``Reading src/'' gives one thinking step
  with text ``Reading src/'' (replace). In \<open>ChatInterface\<close> two \<open>thinking\<close> frames give
  one thinking step with text ``ExploringReading src/'' (append), and \<open>status\<close> frames
  have no case there and leave the timeline alone.
\<close>

theorem commentary_accumulation:
  assumes "\<forall>s\<in>set (agentSteps st). \<not> is_thinking s" and "\<forall>s\<in>set (steps cst). \<not> is_thinking s"
  shows "map text_step (filter is_thinking (agentSteps (doc_run
            [(e1, ''status'', d1\<lparr>p_message := Some ''Exploring''\<rparr>),
             (e2, ''status'', d2\<lparr>p_message := Some ''Reading src/''\<rparr>)] st))) =
          [Some ''Exploring'', Some ''Reading src/'']
       \<and> map text_step (filter is_thinking (agentSteps (doc_run
            [(e1, ''status'', d1\<lparr>p_message := Some ''Exploring''\<rparr>),
             (e2, ''thinking'', d2\<lparr>p_text := Some ''Reading src/''\<rparr>)] st))) =
          [Some ''Reading src/'']
       \<and> map text_step (filter is_thinking (steps (chat_run
            [(c1, ''thinking'', d1\<lparr>p_text := Some ''Exploring''\<rparr>),
             (c2, ''thinking'', d2\<lparr>p_text := Some ''Reading src/''\<rparr>)] cst))) =
          [Some ''ExploringReading src/'']
       \<and> steps (chat_run
            [(c1, ''status'', d1\<lparr>p_message := Some ''Exploring''\<rparr>),
             (c2, ''status'', d2\<lparr>p_message := Some ''Reading src/''\<rparr>)] cst) = steps cst"
proof (intro conjI)
  have none: "filter is_thinking (agentSteps st) = []"
    using assms(1) by (simp add: filter_empty_conv)
  show "map text_step (filter is_thinking (agentSteps (doc_run
            [(e1, ''status'', d1\<lparr>p_message := Some ''Exploring''\<rparr>),
             (e2, ''status'', d2\<lparr>p_message := Some ''Reading src/''\<rparr>)] st))) =
          [Some ''Exploring'', Some ''Reading src/'']"
    by (simp add: none is_thinking_def no_step_def)
  define T where "T = no_step\<lparr>type_step := Thinking, text_step := Some ''Exploring'',
    status := Running, id_step := uuid_id e1, timestamp := now e1\<rparr>"
  define d where "d = d2\<lparr>p_text := Some ''Reading src/''\<rparr>"
  have T: "is_thinking T" by (simp add: T_def is_thinking_def)
  have "filter is_thinking
      (map (\<lambda>s. if id_step s = id_step T then s\<lparr>text_step := p_text d\<rparr> else s) (agentSteps st)) = []"
    using assms(1) by (rule filter_map_none) (simp add: is_thinking_def)
  then have "map text_step (filter is_thinking (doc_thinking d (agentSteps st @ [T]))) = [p_text d]"
    unfolding doc_thinking_last [OF T] using T by (simp add: is_thinking_def)
  then show "map text_step (filter is_thinking (agentSteps (doc_run
            [(e1, ''status'', d1\<lparr>p_message := Some ''Exploring''\<rparr>),
             (e2, ''thinking'', d2\<lparr>p_text := Some ''Reading src/''\<rparr>)] st))) =
          [Some ''Reading src/'']"
    by (simp add: T_def d_def)
next
  have none: "filter is_thinking (steps cst) = []"
    using assms(2) by (simp add: filter_empty_conv)
  define U where "U = no_step\<lparr>id_step := ''thinking-'' @ decimal (now_id c1),
            type_step := Thinking, text_step := Some ''Exploring'', timestamp := now_ts c1,
            status := Running\<rparr>"
  have U: "is_thinking U" by (simp add: U_def is_thinking_def)
  have a: "chat_thinking c1 (d1\<lparr>p_text := Some ''Exploring''\<rparr>) (steps cst) = steps cst @ [U]"
    unfolding U_def using chat_thinking_new [OF assms(2)] by simp
  have b: "chat_thinking c2 (d2\<lparr>p_text := Some ''Reading src/''\<rparr>) (steps cst @ [U]) =
      steps cst @ [U\<lparr>text_step := Some ''ExploringReading src/''\<rparr>]"
    unfolding chat_thinking_again [OF assms(2) U]
    by (simp add: U_def js_concat_def or_empty_def)
  show "map text_step (filter is_thinking (steps (chat_run
            [(c1, ''thinking'', d1\<lparr>p_text := Some ''Exploring''\<rparr>),
             (c2, ''thinking'', d2\<lparr>p_text := Some ''Reading src/''\<rparr>)] cst))) =
          [Some ''ExploringReading src/'']"
    using U by (simp add: a b none is_thinking_def)
  show "steps (chat_run
            [(c1, ''status'', d1\<lparr>p_message := Some ''Exploring''\<rparr>),
             (c2, ''status'', d2\<lparr>p_message := Some ''Reading src/''\<rparr>)] cst) = steps cst"
    by (simp add: handleSubmit_event_def)
qed

theorem commentary_accumulation_witness:
  "agentSteps doc_init = [] \<and> steps chat_init = []
   \<and> map text_step (filter is_thinking (agentSteps (doc_run
            [(env0, ''status'', no_data\<lparr>p_message := Some ''Exploring''\<rparr>),
             (env1, ''thinking'', no_data\<lparr>p_text := Some ''Reading src/''\<rparr>)] doc_init))) =
          [Some ''Reading src/'']
   \<and> map text_step (filter is_thinking (steps (chat_run
            [(chat_env0, ''thinking'', no_data\<lparr>p_text := Some ''Exploring''\<rparr>),
             (chat_env0, ''thinking'', no_data\<lparr>p_text := Some ''Reading src/''\<rparr>)] chat_init))) =
          [Some ''ExploringReading src/'']"
proof -
  have h1: "\<forall>s\<in>set (agentSteps doc_init). \<not> is_thinking s" by (simp add: doc_init_def)
  have h2: "\<forall>s\<in>set (steps chat_init). \<not> is_thinking s" by (simp add: chat_init_def)
  from commentary_accumulation [OF h1 h2, where ?d1.0 = no_data and ?d2.0 = no_data
      and ?e1.0 = env0 and ?e2.0 = env1 and ?c1.0 = chat_env0 and ?c2.0 = chat_env0]
  have "map text_step (filter is_thinking (agentSteps (doc_run
            [(env0, ''status'', no_data\<lparr>p_message := Some ''Exploring''\<rparr>),
             (env1, ''thinking'', no_data\<lparr>p_text := Some ''Reading src/''\<rparr>)] doc_init))) =
          [Some ''Reading src/'']
   \<and> map text_step (filter is_thinking (steps (chat_run
            [(chat_env0, ''thinking'', no_data\<lparr>p_text := Some ''Exploring''\<rparr>),
             (chat_env0, ''thinking'', no_data\<lparr>p_text := Some ''Reading src/''\<rparr>)] chat_init))) =
          [Some ''ExploringReading src/'']"
    by blast
  then show ?thesis by (simp add: doc_init_def chat_init_def)
qed

text \<open>
  Counterexample to C5 as the specification states it: the two \<open>status\<close> frames
  give two thinking steps in \<open>DocViewer\<close> and none in
  \<open>ChatInterface\<close>.
\<close>

theorem status_frames_counterexample:
  "map type_step (agentSteps (doc_run
      [(env0, ''status'', no_data\<lparr>p_message := Some ''Exploring''\<rparr>),
       (env1, ''status'', no_data\<lparr>p_message := Some ''Reading src/''\<rparr>)] doc_init)) =
     [Thinking, Thinking]
   \<and> map text_step (agentSteps (doc_run
      [(env0, ''status'', no_data\<lparr>p_message := Some ''Exploring''\<rparr>),
       (env1, ''status'', no_data\<lparr>p_message := Some ''Reading src/''\<rparr>)] doc_init)) =
     [Some ''Exploring'', Some ''Reading src/'']
   \<and> steps (chat_run
      [(chat_env0, ''status'', no_data\<lparr>p_message := Some ''Exploring''\<rparr>),
       (chat_env0, ''status'', no_data\<lparr>p_message := Some ''Reading src/''\<rparr>)] chat_init) = []"
  by (simp add: doc_init_def chat_init_def no_step_def handleSubmit_event_def)

text \<open>
  Claim C2, on the code. The frame ``event: status / data: {}'' in one chunk gives one
  frame at both call sites. Cut after the label line, \<open>DocViewer\<close> gives no frame: its
  \<open>eventType\<close> is declared inside the read loop and is empty again when the data line
  arrives. Cut before the blank line, \<open>ChatInterface\<close> gives no frame: label and data
  line are consumed with the first chunk and not put back into the buffer.
\<close>

theorem split_frame_is_lost:
  "doc_decode parse0 [''event: status\<newline>data: {}\<newline>\<newline>''] = [(''status'', no_data)]
   \<and> doc_decode parse0 [''event: status\<newline>'', ''data: {}\<newline>\<newline>''] = []
   \<and> chat_decode parse0 [''event: status\<newline>data: {}\<newline>\<newline>''] = [(''status'', no_data)]
   \<and> chat_decode parse0 [''event: status\<newline>data: {}'', ''\<newline>\<newline>''] = []"
  by (simp add: doc_decode_def chat_decode_def doc_chunk_def chat_chunk_def startsWith_def
      slice_def parse0_def emit_def)












lemma doc_lines_emit_acc:
  "doc_lines emit parse ls ev acc = acc @ doc_lines emit parse ls ev []"
proof (induction ls arbitrary: ev acc)
  case Nil
  show ?case by simp
next
  case (Cons l ls)
  show ?case
  proof (cases "startsWith l ''event: ''")
    case True
    then show ?thesis using Cons.IH [of "slice l 7" acc] by simp
  next
    case False
    note ne = False
    show ?thesis
    proof (cases "startsWith l ''data: '' \<and> ev \<noteq> []")
      case True
      show ?thesis
      proof (cases "parse (slice l 6)")
        case None
        then show ?thesis using ne True Cons.IH [of "[]" acc] by simp
      next
        case (Some d)
        then show ?thesis
          using ne True Cons.IH [of "[]" "acc @ [(ev, d)]"] Cons.IH [of "[]" "[(ev, d)]"]
          by (simp add: emit_def)
      qed
    next
      case False
      then show ?thesis using ne Cons.IH [of ev acc] by auto
    qed
  qed
qed

lemma doc_lines_sim:
  "doc_lines h parse ls ev s = foldl (\<lambda>s f. h (fst f) (snd f) s) s (doc_lines emit parse ls ev [])"
proof (induction ls arbitrary: ev s)
  case Nil
  show ?case by simp
next
  case (Cons l ls)
  show ?case
  proof (cases "startsWith l ''event: ''")
    case True
    then show ?thesis using Cons.IH [of "slice l 7" s] by simp
  next
    case False
    note ne = False
    show ?thesis
    proof (cases "startsWith l ''data: '' \<and> ev \<noteq> []")
      case True
      show ?thesis
      proof (cases "parse (slice l 6)")
        case None
        then show ?thesis using ne True Cons.IH [of "[]" s] by simp
      next
        case (Some d)
        have "doc_lines emit parse ls [] [(ev, d)] = [(ev, d)] @ doc_lines emit parse ls [] []"
          by (rule doc_lines_emit_acc)
        moreover have "emit ev d [] = [(ev, d)]" by (simp add: emit_def)
        ultimately show ?thesis
          using Some ne True Cons.IH [of "[]" "h ev d s"] by simp
      qed
    next
      case False
      then show ?thesis using ne Cons.IH [of ev s] by auto
    qed
  qed
qed

lemma doc_chunk_sim:
  "doc_chunk h parse c (b, s) =
     (fst (doc_chunk emit parse c (b, [])),
      foldl (\<lambda>s f. h (fst f) (snd f) s) s (snd (doc_chunk emit parse c (b, []))))"
  by (simp add: doc_chunk_def Let_def doc_lines_sim [of h])

lemma doc_chunk_emit_acc:
  "doc_chunk emit parse c (b, acc) =
     (fst (doc_chunk emit parse c (b, [])), acc @ snd (doc_chunk emit parse c (b, [])))"
  by (simp add: doc_chunk_def Let_def doc_lines_emit_acc [of _ _ _ acc])

lemma doc_read_loop_emit_acc:
  "doc_read_loop emit parse cs (b, acc) =
     (fst (doc_read_loop emit parse cs (b, [])), acc @ snd (doc_read_loop emit parse cs (b, [])))"
proof (induction cs arbitrary: b acc)
  case Nil
  show ?case by simp
next
  case (Cons c cs)
  obtain b' fs where c: "doc_chunk emit parse c (b, []) = (b', fs)" by (cases "doc_chunk emit parse c (b, [])")
  have a: "doc_chunk emit parse c (b, acc) = (b', acc @ fs)"
    using doc_chunk_emit_acc [of parse c b acc] c by simp
  show ?case
    using Cons.IH [of b' "acc @ fs"] Cons.IH [of b' fs] by (simp add: a c)
qed

lemma doc_read_loop_sim:
  "doc_read_loop h parse cs (b, s) =
     (fst (doc_read_loop emit parse cs (b, [])),
      foldl (\<lambda>s f. h (fst f) (snd f) s) s (snd (doc_read_loop emit parse cs (b, []))))"
proof (induction cs arbitrary: b s)
  case Nil
  show ?case by simp
next
  case (Cons c cs)
  obtain b' fs where c: "doc_chunk emit parse c (b, []) = (b', fs)" by (cases "doc_chunk emit parse c (b, [])")
  have a: "doc_chunk h parse c (b, s) = (b', foldl (\<lambda>s f. h (fst f) (snd f) s) s fs)"
    using doc_chunk_sim [of h parse c b s] c by simp
  have e: "doc_read_loop emit parse cs (b', fs) =
      (fst (doc_read_loop emit parse cs (b', [])), fs @ snd (doc_read_loop emit parse cs (b', [])))"
    by (rule doc_read_loop_emit_acc)
  show ?case
    using Cons.IH [of b' "foldl (\<lambda>s f. h (fst f) (snd f) s) s fs"] by (simp add: a c e)
qed

lemma doc_handler_fold:
  "snd (foldl (\<lambda>s f. doc_handler envs (fst f) (snd f) s) (n, st) fs) = doc_run (with_envs envs n fs) st"
proof (induction fs arbitrary: n st)
  case Nil
  show ?case by simp
next
  case (Cons f fs)
  obtain ev d where f: "f = (ev, d)" by (cases f)
  show ?case using Cons.IH [of "Suc n" "handleStreamEvent (envs n) ev d st"]
    by (simp add: f doc_handler_def)
qed

lemma generateDoc_done:
  "generateDoc envs parse chunks Done st =
     (doc_run (with_envs envs 0 (doc_decode parse chunks)) (doc_reset st))\<lparr>isLoading := False\<rparr>"
  by (simp add: generateDoc_def Let_def doc_read_loop_sim [of "doc_handler envs"] doc_handler_fold
      doc_decode_def doc_reset_def)

lemma chat_lines_sim:
  "chat_lines h parse ls ev dt buf (foldl (\<lambda>s f. h (fst f) (snd f) s) s0 acc) =
     (fst (chat_lines emit parse ls ev dt buf acc),
      foldl (\<lambda>s f. h (fst f) (snd f) s) s0 (snd (chat_lines emit parse ls ev dt buf acc)))"
proof (induction ls arbitrary: ev dt buf acc)
  case Nil
  show ?case by simp
next
  case (Cons l ls)
  have em: "\<And>d. emit ev d acc = acc @ [(ev, d)]" by (simp add: emit_def)
  have step: "\<And>d. h ev d (foldl (\<lambda>s f. h (fst f) (snd f) s) s0 acc) =
      foldl (\<lambda>s f. h (fst f) (snd f) s) s0 (acc @ [(ev, d)])"
    by simp
  show ?case
    by (cases "parse dt") (simp_all add: Cons.IH em step del: foldl_append)
qed

lemma chat_chunk_sim:
  "chat_chunk h parse c (b, foldl (\<lambda>s f. h (fst f) (snd f) s) s0 acc) =
     (fst (chat_chunk emit parse c (b, acc)),
      foldl (\<lambda>s f. h (fst f) (snd f) s) s0 (snd (chat_chunk emit parse c (b, acc))))"
  by (simp add: chat_chunk_def chat_lines_sim)

lemma chat_read_loop_sim:
  "chat_read_loop h parse cs (b, foldl (\<lambda>s f. h (fst f) (snd f) s) s0 acc) =
     (fst (chat_read_loop emit parse cs (b, acc)),
      foldl (\<lambda>s f. h (fst f) (snd f) s) s0 (snd (chat_read_loop emit parse cs (b, acc))))"
proof (induction cs arbitrary: b acc)
  case Nil
  show ?case by simp
next
  case (Cons c cs)
  obtain b' fs where c: "chat_chunk emit parse c (b, acc) = (b', fs)"
    by (cases "chat_chunk emit parse c (b, acc)")
  have "chat_chunk h parse c (b, foldl (\<lambda>s f. h (fst f) (snd f) s) s0 acc) =
      (b', foldl (\<lambda>s f. h (fst f) (snd f) s) s0 fs)"
    using chat_chunk_sim [of h parse c b s0 acc] c by simp
  then show ?case using Cons.IH [of b' fs] by (simp add: c)
qed

lemma chat_handler_fold:
  "snd (foldl (\<lambda>s f. chat_handler envs (fst f) (snd f) s) (n, st) fs) = chat_run (with_envs envs n fs) st"
proof (induction fs arbitrary: n st)
  case Nil
  show ?case by simp
next
  case (Cons f fs)
  obtain ev d where f: "f = (ev, d)" by (cases f)
  show ?case using Cons.IH [of "Suc n" "handleSubmit_event (envs n) ev d st"]
    by (simp add: f chat_handler_def)
qed

lemma handleSubmit_steps:
  "steps (handleSubmit envs parse chunks ending st) =
     steps (chat_run (with_envs envs 0 (chat_decode parse chunks)) (chat_reset st))"
proof -
  have "chat_read_loop (chat_handler envs) parse chunks
      ([], foldl (\<lambda>s f. chat_handler envs (fst f) (snd f) s) (0, chat_reset st) []) =
     (fst (chat_read_loop emit parse chunks ([], [])),
      foldl (\<lambda>s f. chat_handler envs (fst f) (snd f) s) (0, chat_reset st)
        (snd (chat_read_loop emit parse chunks ([], []))))"
    by (rule chat_read_loop_sim)
  then have "snd (snd (chat_read_loop (chat_handler envs) parse chunks ([], (0, chat_reset st)))) =
      chat_run (with_envs envs 0 (chat_decode parse chunks)) (chat_reset st)"
    by (simp add: chat_handler_fold chat_decode_def)
  then show ?thesis by (simp add: handleSubmit_def Let_def chat_reset_def)
qed

text \<open>
  Claim C7, as the code has it. When the reads end with \<open>done\<close>, the timeline of
  \<open>DocViewer\<close> is the reducer folded over the frames decoded so far, nothing more. When
  a read fails, the \<open>catch\<close> block of \<open>generateDoc\<close> sets the status of every step of
  that timeline to error and changes no other field. In \<open>ChatInterface\<close> the local
  \<open>steps\<close> is the reducer folded over the decoded frames under both endings, and
  \<open>finally\<close> empties the displayed \<open>currentSteps\<close> under both.
\<close>

theorem transport_end_and_failure:
  "agentSteps (generateDoc envs parse chunks Done st) =
     agentSteps (doc_run (with_envs envs 0 (doc_decode parse chunks)) (doc_reset st))
   \<and> agentSteps (generateDoc envs parse chunks (Failed msg) st) =
     map (\<lambda>s. s\<lparr>status := Error\<rparr>)
       (agentSteps (doc_run (with_envs envs 0 (doc_decode parse chunks)) (doc_reset st)))
   \<and> steps (handleSubmit cenvs parse chunks Done cst) =
     steps (chat_run (with_envs cenvs 0 (chat_decode parse chunks)) (chat_reset cst))
   \<and> steps (handleSubmit cenvs parse chunks (Failed msg) cst) =
     steps (chat_run (with_envs cenvs 0 (chat_decode parse chunks)) (chat_reset cst))
   \<and> currentSteps (handleSubmit cenvs parse chunks Done cst) = []
   \<and> currentSteps (handleSubmit cenvs parse chunks (Failed msg) cst) = []"
proof (intro conjI)
  show "currentSteps (handleSubmit cenvs parse chunks Done cst) = []"
    by (simp add: handleSubmit_def Let_def)
  show "currentSteps (handleSubmit cenvs parse chunks (Failed msg) cst) = []"
    by (simp add: handleSubmit_def Let_def)
  show d: "agentSteps (generateDoc envs parse chunks Done st) =
     agentSteps (doc_run (with_envs envs 0 (doc_decode parse chunks)) (doc_reset st))"
    by (simp add: generateDoc_done)
  have "agentSteps (generateDoc envs parse chunks (Failed msg) st) =
     map (\<lambda>s. s\<lparr>status := Error\<rparr>) (agentSteps (generateDoc envs parse chunks Done st))"
    by (simp add: generateDoc_def Let_def)
  then show "agentSteps (generateDoc envs parse chunks (Failed msg) st) =
     map (\<lambda>s. s\<lparr>status := Error\<rparr>)
       (agentSteps (doc_run (with_envs envs 0 (doc_decode parse chunks)) (doc_reset st)))"
    unfolding d .
  show "steps (handleSubmit cenvs parse chunks Done cst) =
     steps (chat_run (with_envs cenvs 0 (chat_decode parse chunks)) (chat_reset cst))"
    by (rule handleSubmit_steps)
  show "steps (handleSubmit cenvs parse chunks (Failed msg) cst) =
     steps (chat_run (with_envs cenvs 0 (chat_decode parse chunks)) (chat_reset cst))"
    by (rule handleSubmit_steps)
qed

text \<open>
  Counterexample to C7 as the specification states it: after one \<open>status\<close> frame
  the thinking step is running when the reads end with \<open>done\<close>, and is error
  when the next read fails.
\<close>

theorem transport_failure_counterexample:
  "map status (agentSteps (generateDoc envs0 parse0
      [''event: status\<newline>data: {}\<newline>\<newline>''] Done doc_init)) = [Running]
   \<and> map status (agentSteps (generateDoc envs0 parse0
      [''event: status\<newline>data: {}\<newline>\<newline>''] (Failed ''network error'') doc_init)) = [Error]"
  by (simp add: generateDoc_def Let_def doc_chunk_def startsWith_def slice_def parse0_def
      doc_handler_def doc_init_def envs0_def)

lemma doc_tool_result_map:
  assumes "running_tool_call s" and "\<forall>x\<in>set post. \<not> running_tool_call x"
  shows "doc_tool_result d (pre @ s # post) =
    map (\<lambda>x. if id_step x = id_step s then resolve_step d x else x) (pre @ s # post)"
proof -
  have f: "find running_tool_call (rev (pre @ s # post)) = Some s"
    using assms by (rule find_rev_last)
  show ?thesis unfolding doc_tool_result_def f by simp
qed

text \<open>
  Claim C10. In \<open>DocViewer\<close> a \<open>tool_result\<close> frame resolves the last step of the
  timeline that is a running tool call, the one created most recently: the timeline keeps
  its length, and at that step's position stands the same step with status completed,
  \<open>output\<close> the frame's summary and \<open>fullOutput\<close> the frame's output. Every step
  whose id differs from that step's id is left as it is; when the ids of the timeline are
  pairwise different (they are random UUIDs) no other step changes at all. With no running
  tool call the timeline is returned unchanged. The \<open>tool\<close> and \<open>id\<close> properties of the
  frame play no part.
\<close>

theorem doc_result_binds_last_running_call:
  "((\<forall>s\<in>set (agentSteps st). \<not> running_tool_call s) \<longrightarrow>
      agentSteps (handleStreamEvent e ''tool_result'' d st) = agentSteps st)
   \<and> (\<forall>pre s post.
        agentSteps st = pre @ s # post \<and> running_tool_call s
          \<and> (\<forall>x\<in>set post. \<not> running_tool_call x) \<longrightarrow>
        length (agentSteps (handleStreamEvent e ''tool_result'' d st)) = length (agentSteps st)
        \<and> agentSteps (handleStreamEvent e ''tool_result'' d st) ! length pre =
            s\<lparr>status := Completed, output_step := p_summary d, fullOutput := p_output d\<rparr>
        \<and> (\<forall>k<length (agentSteps st). id_step (agentSteps st ! k) \<noteq> id_step s \<longrightarrow>
              agentSteps (handleStreamEvent e ''tool_result'' d st) ! k = agentSteps st ! k)
        \<and> (distinct (map id_step (agentSteps st)) \<longrightarrow>
              agentSteps (handleStreamEvent e ''tool_result'' d st) =
                pre @ s\<lparr>status := Completed, output_step := p_summary d, fullOutput := p_output d\<rparr> # post))
   \<and> agentSteps (handleStreamEvent e ''tool_result'' (d\<lparr>p_tool := t, p_id := i\<rparr>) st) =
       agentSteps (handleStreamEvent e ''tool_result'' d st)"
proof (intro conjI allI impI)
  assume "\<forall>s\<in>set (agentSteps st). \<not> running_tool_call s"
  then show "agentSteps (handleStreamEvent e ''tool_result'' d st) = agentSteps st"
    unfolding hse_tool_result by (rule doc_tool_result_none)
next
  show "agentSteps (handleStreamEvent e ''tool_result'' (d\<lparr>p_tool := t, p_id := i\<rparr>) st) =
       agentSteps (handleStreamEvent e ''tool_result'' d st)"
    unfolding hse_tool_result by (rule doc_tool_result_ignores_tool_and_id)
next
  fix pre s post
  assume a: "agentSteps st = pre @ s # post \<and> running_tool_call s
    \<and> (\<forall>x\<in>set post. \<not> running_tool_call x)"
  let ?g = "\<lambda>x. if id_step x = id_step s then resolve_step d x else x"
  have m: "agentSteps (handleStreamEvent e ''tool_result'' d st) = map ?g (agentSteps st)"
    unfolding hse_tool_result using a doc_tool_result_map [of s post d pre] by simp
  show "length (agentSteps (handleStreamEvent e ''tool_result'' d st)) = length (agentSteps st)"
    unfolding m by simp
  have "map ?g (pre @ s # post) ! length pre = ?g s"
    by (simp add: nth_append)
  then show "agentSteps (handleStreamEvent e ''tool_result'' d st) ! length pre =
            s\<lparr>status := Completed, output_step := p_summary d, fullOutput := p_output d\<rparr>"
    unfolding m using a by (simp add: resolve_step_def)
  {
    fix k
    assume k: "k < length (agentSteps st)" and ne: "id_step (agentSteps st ! k) \<noteq> id_step s"
    from k have "map ?g (agentSteps st) ! k = ?g (agentSteps st ! k)" by (rule nth_map)
    with ne show "agentSteps (handleStreamEvent e ''tool_result'' d st) ! k = agentSteps st ! k"
      unfolding m by simp
  }
  {
    assume "distinct (map id_step (agentSteps st))"
    then have "distinct (map id_step (pre @ s # post))" using a by simp
    then have "doc_tool_result d (pre @ s # post) = pre @ resolve_step d s # post"
      using a by (intro doc_tool_result_some) simp_all
    then show "agentSteps (handleStreamEvent e ''tool_result'' d st) =
        pre @ s\<lparr>status := Completed, output_step := p_summary d, fullOutput := p_output d\<rparr> # post"
      unfolding hse_tool_result using a by (simp add: resolve_step_def)
  }
qed

theorem doc_result_binds_last_running_call_witness:
  "map id_step (agentSteps (handleStreamEvent env2 ''tool_result'' (result_x ''1'')
       (doc_init\<lparr>agentSteps := [call0, call1]\<rparr>))) = [''u0'', ''u1'']
   \<and> map status (agentSteps (handleStreamEvent env2 ''tool_result'' (result_x ''1'')
       (doc_init\<lparr>agentSteps := [call0, call1]\<rparr>))) = [Running, Completed]
   \<and> map output_step (agentSteps (handleStreamEvent env2 ''tool_result'' (result_x ''1'')
       (doc_init\<lparr>agentSteps := [call0, call1]\<rparr>))) = [None, Some (JStr ''ok'')]
   \<and> map fullOutput (agentSteps (handleStreamEvent env2 ''tool_result'' (result_x ''1'')
       (doc_init\<lparr>agentSteps := [call0, call1]\<rparr>))) = [None, None]
   \<and> agentSteps (handleStreamEvent env2 ''tool_result'' (result_x ''1'') doc_init) = []"
proof -
  let ?st = "doc_init\<lparr>agentSteps := [call0, call1]\<rparr>"
  have d: "distinct (map id_step (agentSteps ?st))"
    by (simp add: call0_def call1_def)
  have r: "agentSteps ?st = [call0] @ call1 # [] \<and> running_tool_call call1
      \<and> (\<forall>x\<in>set []. \<not> running_tool_call x)"
    by (simp add: running_tool_call_def call1_def)
  note t = doc_result_binds_last_running_call [of ?st env2 "result_x ''1''"]
  from t [THEN conjunct2, THEN conjunct1, rule_format, OF r]
  have "distinct (map id_step (agentSteps ?st)) \<longrightarrow>
      agentSteps (handleStreamEvent env2 ''tool_result'' (result_x ''1'') ?st) =
        [call0] @ call1\<lparr>status := Completed, output_step := p_summary (result_x ''1''),
          fullOutput := p_output (result_x ''1'')\<rparr> # []"
    by blast
  with d have 1: "agentSteps (handleStreamEvent env2 ''tool_result'' (result_x ''1'') ?st) =
        [call0, call1\<lparr>status := Completed, output_step := p_summary (result_x ''1''),
          fullOutput := p_output (result_x ''1'')\<rparr>]"
    by simp
  have n: "\<forall>s\<in>set (agentSteps doc_init). \<not> running_tool_call s"
    by (simp add: doc_init_def)
  from doc_result_binds_last_running_call [of doc_init env2 "result_x ''1''", THEN conjunct1,
      THEN mp, OF n]
  have 2: "agentSteps (handleStreamEvent env2 ''tool_result'' (result_x ''1'') doc_init) = []"
    by (simp add: doc_init_def)
  show ?thesis unfolding 1 2
    by (simp add: call0_def call1_def no_step_def result_x_def no_data_def)
qed

lemma no_new_ids:
  "xs = ys \<Longrightarrow> \<exists>new. xs = ys @ new \<and> length new \<le> (1::nat)"
  by (rule exI [of _ "[]"]) simp

lemma map_ids_cond:
  assumes "\<And>x. id_step (f x) = id_step x"
  shows "map id_step (map (\<lambda>x. if P x then f x else x) ss) = map id_step ss"
  by (induction ss) (simp_all add: assms)

lemma doc_tool_result_ids: "map id_step (doc_tool_result d ss) = map id_step ss"
proof (cases "find running_tool_call (rev ss)")
  case None
  then show ?thesis by (simp add: doc_tool_result_def)
next
  case (Some l)
  have "map id_step (map (\<lambda>x. if id_step x = id_step l then resolve_step d x else x) ss) =
      map id_step ss"
    by (rule map_ids_cond) (simp add: resolve_step_def)
  then show ?thesis unfolding doc_tool_result_def Some by simp
qed

lemma doc_thinking_ids: "map id_step (doc_thinking d ss) = map id_step ss"
proof (cases "find is_thinking (rev ss)")
  case None
  then show ?thesis by (simp add: doc_thinking_def)
next
  case (Some l)
  have "map id_step (map (\<lambda>x. if id_step x = id_step l then x\<lparr>text_step := p_text d\<rparr> else x) ss) =
      map id_step ss"
    by (rule map_ids_cond) simp
  then show ?thesis unfolding doc_thinking_def Some by simp
qed

lemma set_status_ids: "map id_step (map (\<lambda>s. s\<lparr>status := v\<rparr>) ss) = map id_step ss"
  by (induction ss) simp_all

lemma sweep_ids:
  "map id_step (map (\<lambda>s. if status s = Running then s\<lparr>status := Completed\<rparr> else s) ss) =
     map id_step ss"
  by (rule map_ids_cond) simp

lemma chat_tool_result_ids: "map id_step (chat_tool_result n d ss) = map id_step ss"
proof (induction n)
  case 0
  show ?case by simp
next
  case (Suc n)
  show ?case
  proof (cases "type_step (ss ! n) = ToolCall \<and> toolName (ss ! n) = p_tool d \<and> status (ss ! n) = Running")
    case True
    then have eq: "chat_tool_result (Suc n) d ss =
        ss[n := (ss ! n)\<lparr>output_step := p_summary d, fullOutput := p_output d, status := Completed\<rparr>]"
      by simp
    show ?thesis unfolding eq by (rule update_keeps_flags) simp
  next
    case False
    then have eq: "chat_tool_result (Suc n) d ss = chat_tool_result n d ss" by auto
    show ?thesis unfolding eq by (rule Suc.IH)
  qed
qed

lemma chat_thinking_ids:
  "\<exists>new. map id_step (chat_thinking e d ss) = map id_step ss @ new \<and> length new \<le> 1"
proof (cases "findIndex is_thinking ss")
  case None
  then have "map id_step (chat_thinking e d ss) =
      map id_step ss @ [''thinking-'' @ decimal (now_id e)]"
    by (simp add: chat_thinking_def)
  then show ?thesis by simp
next
  case (Some i)
  have "map id_step
      (ss[i := (ss ! i)\<lparr>text_step := Some (js_concat (or_empty (text_step (ss ! i))) (p_text d))\<rparr>]) =
      map id_step ss"
    by (rule update_keeps_flags) simp
  then have "map id_step (chat_thinking e d ss) = map id_step ss @ []"
    using Some by (simp add: chat_thinking_def)
  then show ?thesis by (intro exI [of _ "[]"]) simp
qed

lemma append_one_ids:
  "\<exists>new. map id_step (ss @ [T]) = map id_step ss @ new \<and> length new \<le> 1"
proof -
  have "map id_step (ss @ [T]) = map id_step ss @ [id_step T] \<and> length [id_step T] \<le> 1"
    by simp
  then show ?thesis by (rule exI)
qed

lemma doc_other_label:
  assumes "l \<noteq> ''status''" and "l \<noteq> ''tool_call''" and "l \<noteq> ''tool_result''"
    and "l \<noteq> ''thinking''" and "l \<noteq> ''complete''" and "l \<noteq> ''error''"
  shows "handleStreamEvent e l d st = st"
  using assms by (simp add: handleStreamEvent_def)

lemma doc_event_ids:
  "\<exists>new. map id_step (agentSteps (handleStreamEvent e l d st)) = map id_step (agentSteps st) @ new
     \<and> length new \<le> 1"
proof -
  note same = no_new_ids [where ys = "map id_step (agentSteps st)"]
  consider (status) "l = ''status''" | (tool_call) "l = ''tool_call''"
    | (tool_result) "l = ''tool_result''" | (thinking) "l = ''thinking''"
    | (complete) "l = ''complete''" | (error) "l = ''error''"
    | (other) "l \<noteq> ''status''" "l \<noteq> ''tool_call''" "l \<noteq> ''tool_result''"
        "l \<noteq> ''thinking''" "l \<noteq> ''complete''" "l \<noteq> ''error''"
    by blast
  then show ?thesis
  proof cases
    case status
    show ?thesis unfolding status hse_status by (rule append_one_ids)
  next
    case tool_call
    show ?thesis unfolding tool_call hse_tool_call by (rule append_one_ids)
  next
    case tool_result
    show ?thesis unfolding tool_result hse_tool_result by (rule same) (rule doc_tool_result_ids)
  next
    case thinking
    show ?thesis unfolding thinking hse_thinking by (rule same) (rule doc_thinking_ids)
  next
    case complete
    show ?thesis unfolding complete hse_complete by (rule same) (rule set_status_ids)
  next
    case error
    show ?thesis unfolding error hse_error by (rule same) (rule set_status_ids)
  next
    case other
    then have "handleStreamEvent e l d st = st" by (rule doc_other_label)
    then show ?thesis by (simp add: no_new_ids)
  qed
qed

lemma chat_event_ids:
  "\<exists>new. map id_step (steps (handleSubmit_event e l d st)) = map id_step (steps st) @ new
     \<and> length new \<le> 1"
proof -
  note same = no_new_ids [where ys = "map id_step (steps st)"]
  from hsub_steps_cases [of e l d st] show ?thesis
  proof (elim disjE)
    assume eq: "steps (handleSubmit_event e l d st) = steps st"
    show ?thesis unfolding eq by (rule same) (rule refl)
  next
    assume eq: "steps (handleSubmit_event e l d st) = chat_thinking e d (steps st)"
    show ?thesis unfolding eq by (rule chat_thinking_ids)
  next
    assume eq: "steps (handleSubmit_event e l d st) = chat_tool_call e d (steps st)"
    have "map id_step (chat_tool_call e d (steps st)) = map id_step (steps st) @
        [''tool-'' @ decimal (now_id e) @ ''-'' @ take 5 (drop 2 (random36 e))]
        \<and> length [''tool-'' @ decimal (now_id e) @ ''-'' @ take 5 (drop 2 (random36 e))] \<le> 1"
      by (simp add: chat_tool_call_def)
    then show ?thesis unfolding eq by (rule exI)
  next
    assume eq: "steps (handleSubmit_event e l d st) =
      chat_tool_result (length (steps st)) d (steps st)"
    show ?thesis unfolding eq by (rule same) (rule chat_tool_result_ids)
  next
    assume eq: "steps (handleSubmit_event e l d st) =
      map (\<lambda>s. if status s = Running then s\<lparr>status := Completed\<rparr> else s) (steps st)"
    show ?thesis unfolding eq by (rule same) (rule sweep_ids)
  qed
qed

lemma set_status_twice:
  "map (\<lambda>s. s\<lparr>status := v\<rparr>) (map (\<lambda>s. s\<lparr>status := w\<rparr>) ss) = map (\<lambda>s. s\<lparr>status := v\<rparr>) ss"
  by (induction ss) simp_all

lemma chat_other_label:
  assumes "l \<noteq> ''thinking''" and "l \<noteq> ''tool_call''" and "l \<noteq> ''tool_result''"
    and "l \<noteq> ''complete''"
  shows "steps (handleSubmit_event c l d cst) = steps cst"
  using assms by (simp add: handleSubmit_event_def)

text \<open>
  Claim C6, as the code has it. Neither reducer keeps a terminal flag; a frame that follows
  \<open>complete\<close> or \<open>error\<close> is reduced like any other.

  \<open>DocViewer\<close>: after a \<open>complete\<close> or \<open>error\<close> frame, a \<open>tool_result\<close> frame
  leaves the timeline unchanged, a repeat of the same frame leaves it unchanged, a
  \<open>status\<close> frame appends one running thinking step and a \<open>tool_call\<close> frame one
  running tool call. A \<open>complete\<close> frame after \<open>error\<close> sets every step to completed,
  an \<open>error\<close> frame after \<open>complete\<close> sets every step to error. A label without a case
  leaves the state unchanged.

  \<open>ChatInterface\<close>: an \<open>error\<close> frame changes nothing. After a \<open>complete\<close> frame, a
  \<open>tool_result\<close> or \<open>complete\<close> frame leaves the timeline unchanged and a
  \<open>tool_call\<close> frame appends one running tool call. A label other than \<open>thinking\<close>,
  \<open>tool_call\<close>, \<open>tool_result\<close> and \<open>complete\<close> leaves the timeline unchanged.

  At both call sites, whatever the label and the timeline, reducing a frame keeps the ids
  of the steps already there, in order, and adds at most one step.
\<close>

theorem frames_after_terminal_frame:
  "(t = ''complete'' \<or> t = ''error'' \<longrightarrow>
      agentSteps (handleStreamEvent e2 ''tool_result'' d2 (handleStreamEvent e1 t d1 st)) =
        agentSteps (handleStreamEvent e1 t d1 st)
      \<and> agentSteps (handleStreamEvent e2 t d2 (handleStreamEvent e1 t d1 st)) =
        agentSteps (handleStreamEvent e1 t d1 st)
      \<and> (\<exists>T. agentSteps (handleStreamEvent e2 ''status'' d2 (handleStreamEvent e1 t d1 st)) =
              agentSteps (handleStreamEvent e1 t d1 st) @ [T]
            \<and> type_step T = Thinking \<and> status T = Running)
      \<and> (\<exists>T. agentSteps (handleStreamEvent e2 ''tool_call'' d2 (handleStreamEvent e1 t d1 st)) =
              agentSteps (handleStreamEvent e1 t d1 st) @ [T]
            \<and> type_step T = ToolCall \<and> status T = Running))
   \<and> agentSteps (handleStreamEvent e2 ''complete'' d2 (handleStreamEvent e1 ''error'' d1 st)) =
        map (\<lambda>s. s\<lparr>status := Completed\<rparr>) (agentSteps st)
   \<and> agentSteps (handleStreamEvent e2 ''error'' d2 (handleStreamEvent e1 ''complete'' d1 st)) =
        map (\<lambda>s. s\<lparr>status := Error\<rparr>) (agentSteps st)
   \<and> (l \<notin> {''status'', ''tool_call'', ''tool_result'', ''thinking'', ''complete'', ''error''} \<longrightarrow>
        handleStreamEvent e2 l d2 st = st)
   \<and> (\<exists>new. map id_step (agentSteps (handleStreamEvent e2 l d2 st)) =
          map id_step (agentSteps st) @ new \<and> length new \<le> 1)
   \<and> handleSubmit_event c1 ''error'' d1 cst = cst
   \<and> steps (handleSubmit_event c2 ''tool_result'' d2 (handleSubmit_event c1 ''complete'' d1 cst)) =
        steps (handleSubmit_event c1 ''complete'' d1 cst)
   \<and> steps (handleSubmit_event c2 ''complete'' d2 (handleSubmit_event c1 ''complete'' d1 cst)) =
        steps (handleSubmit_event c1 ''complete'' d1 cst)
   \<and> (\<exists>T. steps (handleSubmit_event c2 ''tool_call'' d2 (handleSubmit_event c1 ''complete'' d1 cst)) =
          steps (handleSubmit_event c1 ''complete'' d1 cst) @ [T]
        \<and> type_step T = ToolCall \<and> status T = Running)
   \<and> (l \<notin> {''thinking'', ''tool_call'', ''tool_result'', ''complete''} \<longrightarrow>
        steps (handleSubmit_event c2 l d2 cst) = steps cst)
   \<and> (\<exists>new. map id_step (steps (handleSubmit_event c2 l d2 cst)) =
          map id_step (steps cst) @ new \<and> length new \<le> 1)"
proof (intro conjI impI)
  assume t: "t = ''complete'' \<or> t = ''error''"
  then have "\<exists>v. v \<noteq> Running \<and>
      agentSteps (handleStreamEvent e1 t d1 st) = map (\<lambda>s. s\<lparr>status := v\<rparr>) (agentSteps st)
      \<and> (\<forall>st'. agentSteps (handleStreamEvent e2 t d2 st') = map (\<lambda>s. s\<lparr>status := v\<rparr>) (agentSteps st'))"
  proof
    assume "t = ''complete''"
    then have "Completed \<noteq> Running \<and> agentSteps (handleStreamEvent e1 t d1 st) =
        map (\<lambda>s. s\<lparr>status := Completed\<rparr>) (agentSteps st)
        \<and> (\<forall>st'. agentSteps (handleStreamEvent e2 t d2 st') =
              map (\<lambda>s. s\<lparr>status := Completed\<rparr>) (agentSteps st'))"
      by simp
    then show ?thesis ..
  next
    assume "t = ''error''"
    then have "Error \<noteq> Running \<and> agentSteps (handleStreamEvent e1 t d1 st) =
        map (\<lambda>s. s\<lparr>status := Error\<rparr>) (agentSteps st)
        \<and> (\<forall>st'. agentSteps (handleStreamEvent e2 t d2 st') =
              map (\<lambda>s. s\<lparr>status := Error\<rparr>) (agentSteps st'))"
      by simp
    then show ?thesis ..
  qed
  then obtain v where v: "v \<noteq> Running"
    "agentSteps (handleStreamEvent e1 t d1 st) = map (\<lambda>s. s\<lparr>status := v\<rparr>) (agentSteps st)"
    "\<And>st'. agentSteps (handleStreamEvent e2 t d2 st') = map (\<lambda>s. s\<lparr>status := v\<rparr>) (agentSteps st')"
    by blast
  show "agentSteps (handleStreamEvent e2 ''tool_result'' d2 (handleStreamEvent e1 t d1 st)) =
        agentSteps (handleStreamEvent e1 t d1 st)"
    unfolding hse_tool_result v(2) using v(1) by (rule doc_tool_result_all_status)
  show "agentSteps (handleStreamEvent e2 t d2 (handleStreamEvent e1 t d1 st)) =
        agentSteps (handleStreamEvent e1 t d1 st)"
    unfolding v(3) v(2) by (rule set_status_twice)
  have "agentSteps (handleStreamEvent e2 ''status'' d2 (handleStreamEvent e1 t d1 st)) =
      agentSteps (handleStreamEvent e1 t d1 st) @
        [no_step\<lparr>type_step := Thinking, text_step := p_message d2, status := Running,
           id_step := uuid_id e2, timestamp := now e2\<rparr>]
      \<and> type_step (no_step\<lparr>type_step := Thinking, text_step := p_message d2, status := Running,
           id_step := uuid_id e2, timestamp := now e2\<rparr>) = Thinking
      \<and> status (no_step\<lparr>type_step := Thinking, text_step := p_message d2, status := Running,
           id_step := uuid_id e2, timestamp := now e2\<rparr>) = Running"
    unfolding hse_status by simp
  then show "\<exists>T. agentSteps (handleStreamEvent e2 ''status'' d2 (handleStreamEvent e1 t d1 st)) =
              agentSteps (handleStreamEvent e1 t d1 st) @ [T]
            \<and> type_step T = Thinking \<and> status T = Running"
    by (rule exI)
  have "agentSteps (handleStreamEvent e2 ''tool_call'' d2 (handleStreamEvent e1 t d1 st)) =
      agentSteps (handleStreamEvent e1 t d1 st) @
        [no_step\<lparr>type_step := ToolCall, toolName := p_tool d2, input := p_args d2,
           status := Running, toolCallId := Some (uuid_call e2), id_step := uuid_id e2,
           timestamp := now e2\<rparr>]
      \<and> type_step (no_step\<lparr>type_step := ToolCall, toolName := p_tool d2, input := p_args d2,
           status := Running, toolCallId := Some (uuid_call e2), id_step := uuid_id e2,
           timestamp := now e2\<rparr>) = ToolCall
      \<and> status (no_step\<lparr>type_step := ToolCall, toolName := p_tool d2, input := p_args d2,
           status := Running, toolCallId := Some (uuid_call e2), id_step := uuid_id e2,
           timestamp := now e2\<rparr>) = Running"
    unfolding hse_tool_call by simp
  then show "\<exists>T. agentSteps (handleStreamEvent e2 ''tool_call'' d2 (handleStreamEvent e1 t d1 st)) =
              agentSteps (handleStreamEvent e1 t d1 st) @ [T]
            \<and> type_step T = ToolCall \<and> status T = Running"
    by (rule exI)
next
  show "agentSteps (handleStreamEvent e2 ''complete'' d2 (handleStreamEvent e1 ''error'' d1 st)) =
        map (\<lambda>s. s\<lparr>status := Completed\<rparr>) (agentSteps st)"
    unfolding hse_complete hse_error by (rule set_status_twice)
next
  show "agentSteps (handleStreamEvent e2 ''error'' d2 (handleStreamEvent e1 ''complete'' d1 st)) =
        map (\<lambda>s. s\<lparr>status := Error\<rparr>) (agentSteps st)"
    unfolding hse_complete hse_error by (rule set_status_twice)
next
  assume "l \<notin> {''status'', ''tool_call'', ''tool_result'', ''thinking'', ''complete'', ''error''}"
  then have "l \<noteq> ''status''" "l \<noteq> ''tool_call''" "l \<noteq> ''tool_result''"
    "l \<noteq> ''thinking''" "l \<noteq> ''complete''" "l \<noteq> ''error''"
    by simp_all
  then show "handleStreamEvent e2 l d2 st = st" by (rule doc_other_label)
next
  show "\<exists>new. map id_step (agentSteps (handleStreamEvent e2 l d2 st)) =
          map id_step (agentSteps st) @ new \<and> length new \<le> 1"
    by (rule doc_event_ids)
next
  show "handleSubmit_event c1 ''error'' d1 cst = cst" by (rule hsub_steps_error)
next
  let ?ss = "map (\<lambda>s. if status s = Running then s\<lparr>status := Completed\<rparr> else s) (steps cst)"
  have nr: "\<forall>s\<in>set ?ss. status s \<noteq> Running" by (rule sweep_not_running)
  show "steps (handleSubmit_event c2 ''tool_result'' d2 (handleSubmit_event c1 ''complete'' d1 cst)) =
        steps (handleSubmit_event c1 ''complete'' d1 cst)"
    unfolding hsub_steps_tool_result hsub_steps_complete
    using nr by (rule chat_tool_result_none) simp
  have "map (\<lambda>s. if status s = Running then s\<lparr>status := Completed\<rparr> else s) ?ss = ?ss"
    using nr by (intro map_idI) (metis (no_types, lifting))
  then show "steps (handleSubmit_event c2 ''complete'' d2 (handleSubmit_event c1 ''complete'' d1 cst)) =
        steps (handleSubmit_event c1 ''complete'' d1 cst)"
    unfolding hsub_steps_complete .
  have "steps (handleSubmit_event c2 ''tool_call'' d2 (handleSubmit_event c1 ''complete'' d1 cst)) =
      steps (handleSubmit_event c1 ''complete'' d1 cst) @ [hd (chat_tool_call c2 d2 [])]
      \<and> type_step (hd (chat_tool_call c2 d2 [])) = ToolCall
      \<and> status (hd (chat_tool_call c2 d2 [])) = Running"
    unfolding hsub_steps_tool_call by (simp add: chat_tool_call_def)
  then show "\<exists>T. steps (handleSubmit_event c2 ''tool_call'' d2 (handleSubmit_event c1 ''complete'' d1 cst)) =
          steps (handleSubmit_event c1 ''complete'' d1 cst) @ [T]
        \<and> type_step T = ToolCall \<and> status T = Running"
    by (rule exI)
next
  assume "l \<notin> {''thinking'', ''tool_call'', ''tool_result'', ''complete''}"
  then have "l \<noteq> ''thinking''" "l \<noteq> ''tool_call''" "l \<noteq> ''tool_result''" "l \<noteq> ''complete''"
    by simp_all
  then show "steps (handleSubmit_event c2 l d2 cst) = steps cst" by (rule chat_other_label)
next
  show "\<exists>new. map id_step (steps (handleSubmit_event c2 l d2 cst)) =
          map id_step (steps cst) @ new \<and> length new \<le> 1"
    by (rule chat_event_ids)
qed

theorem frames_after_terminal_frame_witness:
  "(''complete'' = ''complete'' \<or> ''complete'' = ''error'')
   \<and> agentSteps (handleStreamEvent env1 ''tool_result'' no_data
        (handleStreamEvent env0 ''complete'' no_data (doc_init\<lparr>agentSteps := [call0]\<rparr>))) =
      agentSteps (handleStreamEvent env0 ''complete'' no_data (doc_init\<lparr>agentSteps := [call0]\<rparr>))
   \<and> ''progress'' \<notin> {''status'', ''tool_call'', ''tool_result'', ''thinking'', ''complete'', ''error''}
   \<and> handleStreamEvent env1 ''progress'' no_data (doc_init\<lparr>agentSteps := [call0]\<rparr>) =
      doc_init\<lparr>agentSteps := [call0]\<rparr>
   \<and> ''progress'' \<notin> {''thinking'', ''tool_call'', ''tool_result'', ''complete''}
   \<and> steps (handleSubmit_event chat_env0 ''progress'' no_data chat_init) = steps chat_init"
proof -
  have h1: "''complete'' = ''complete'' \<or> ''complete'' = ''error''" by simp
  have h2: "''progress'' \<notin> {''status'', ''tool_call'', ''tool_result'', ''thinking'', ''complete'', ''error''}"
    by simp
  have h3: "''progress'' \<notin> {''thinking'', ''tool_call'', ''tool_result'', ''complete''}"
    by simp
  note t = frames_after_terminal_frame [where t = "''complete''" and l = "''progress''"
      and ?e1.0 = env0 and ?e2.0 = env1 and ?d1.0 = no_data and ?d2.0 = no_data
      and st = "doc_init\<lparr>agentSteps := [call0]\<rparr>" and ?c1.0 = chat_env0 and ?c2.0 = chat_env0
      and cst = chat_init]
  note c1 = t [THEN conjunct1, THEN mp, OF h1, THEN conjunct1]
  note c4 = t [THEN conjunct2, THEN conjunct2, THEN conjunct2, THEN conjunct1, THEN mp, OF h2]
  note c10 = t [THEN conjunct2, THEN conjunct2, THEN conjunct2, THEN conjunct2, THEN conjunct2,
      THEN conjunct2, THEN conjunct2, THEN conjunct2, THEN conjunct2, THEN conjunct1, THEN mp, OF h3]
  from h1 h2 h3 c1 c4 c10 show ?thesis by (intro conjI)
qed

text \<open>
  Counterexample to C6 as the specification states it: after a \<open>complete\<close> or
  \<open>error\<close> frame the timeline is empty here, and the next \<open>status\<close>
  or \<open>tool_call\<close> frame adds a step to it.
\<close>

theorem frames_after_terminal_frame_counterexample:
  "agentSteps (doc_run [(env0, ''complete'', no_data)] doc_init) = []
   \<and> length (agentSteps (doc_run [(env0, ''complete'', no_data), (env1, ''status'', no_data)] doc_init)) = 1
   \<and> length (agentSteps (doc_run [(env0, ''error'', no_data), (env1, ''tool_call'', no_data)] doc_init)) = 1
   \<and> steps (chat_run [(chat_env0, ''complete'', no_data)] chat_init) = []
   \<and> length (steps (chat_run [(chat_env0, ''complete'', no_data), (chat_env0, ''tool_call'', no_data)]
        chat_init)) = 1"
  by (simp add: doc_init_def chat_init_def chat_tool_call_def)

end
